theory Spec2Isabelle
  imports Main
begin

section \<open>Go strings\<close>

text \<open>
  A Go string is a sequence of bytes, here a \<^typ>\<open>string\<close> whose characters are the
  bytes. \<^verbatim>\<open>for _, char := range content\<close> walks the string rune by rune: it decodes
  UTF-8, and every byte that does not start a well-formed encoding is one rune
  \<^verbatim>\<open>U+FFFD\<close> of width 1. \<^verbatim>\<open>string(char)\<close> encodes the rune again.
\<close>

definition RuneError :: nat where
  "RuneError = 0xFFFD"

definition in_range :: "nat \<Rightarrow> nat \<Rightarrow> nat \<Rightarrow> bool" where
  "in_range lo hi b = (lo \<le> b \<and> b \<le> hi)"

text \<open>The rune at the head of a byte sequence and its width (\<^verbatim>\<open>utf8.DecodeRuneInString\<close>).\<close>

fun DecodeRune :: "nat list \<Rightarrow> nat \<times> nat" where
  "DecodeRune [] = (RuneError, 0)"
| "DecodeRune (s0 # rest) =
    (if s0 < 0x80 then (s0, 1)
     else if s0 < 0xC2 \<or> 0xF4 < s0 then (RuneError, 1)
     else
       let sz = (if s0 < 0xE0 then 2 else if s0 < 0xF0 then 3 else (4::nat));
           lo = (if s0 = 0xE0 then 0xA0 else if s0 = 0xF0 then 0x90 else 0x80);
           hi = (if s0 = 0xED then 0x9F else if s0 = 0xF4 then 0x8F else 0xBF)
       in if length (s0 # rest) < sz then (RuneError, 1)
          else if \<not> in_range lo hi (rest ! 0) then (RuneError, 1)
          else if sz = 2 then ((s0 mod 0x20) * 0x40 + (rest ! 0) mod 0x40, 2)
          else if \<not> in_range 0x80 0xBF (rest ! 1) then (RuneError, 1)
          else if sz = 3 then
            ((s0 mod 0x10) * 0x1000 + ((rest ! 0) mod 0x40) * 0x40 + (rest ! 1) mod 0x40, 3)
          else if \<not> in_range 0x80 0xBF (rest ! 2) then (RuneError, 1)
          else ((s0 mod 8) * 0x40000 + ((rest ! 0) mod 0x40) * 0x1000
                  + ((rest ! 1) mod 0x40) * 0x40 + (rest ! 2) mod 0x40, 4))"

text \<open>The runes a \<^verbatim>\<open>range\<close> loop over the bytes visits, in order.\<close>

fun range_runes :: "nat list \<Rightarrow> nat list" where
  "range_runes [] = []"
| "range_runes (b # bs) =
    (case DecodeRune (b # bs) of (r, width) \<Rightarrow> r # range_runes (drop (width - 1) bs))"

definition runes :: "string \<Rightarrow> nat list" where
  "runes content = range_runes (map of_char content)"

text \<open>
  The UTF-8 encoding of a rune (\<^verbatim>\<open>utf8.EncodeRune\<close>), and with it the conversion
  \<^verbatim>\<open>string(r)\<close> of a rune to a string.
\<close>

definition EncodeRune :: "nat \<Rightarrow> nat list" where
  "EncodeRune r =
     (if r < 0x80 then [r]
      else if r < 0x800 then [0xC0 + r div 0x40, 0x80 + r mod 0x40]
      else if 0x10FFFF < r \<or> (0xD800 \<le> r \<and> r \<le> 0xDFFF) then [0xEF, 0xBF, 0xBD]
      else if r < 0x10000 then
        [0xE0 + r div 0x1000, 0x80 + (r div 0x40) mod 0x40, 0x80 + r mod 0x40]
      else [0xF0 + r div 0x40000, 0x80 + (r div 0x1000) mod 0x40,
            0x80 + (r div 0x40) mod 0x40, 0x80 + r mod 0x40])"

definition string_of_rune :: "nat \<Rightarrow> string" where
  "string_of_rune r = map char_of (EncodeRune r)"

text \<open>
  The characters of a string, as the language defines the iteration over a string: the
  Unicode code points whose UTF-8 encodings follow one another in the string, from the
  first byte on; a byte where no encoding of a code point starts is one character, the
  replacement character \<^verbatim>\<open>U+FFFD\<close>, and the next character starts one byte further on.
\<close>

definition is_scalar_value :: "nat \<Rightarrow> bool" where
  "is_scalar_value c = (c < 0x110000 \<and> \<not> (0xD800 \<le> c \<and> c \<le> 0xDFFF))"

inductive characters :: "string \<Rightarrow> nat list \<Rightarrow> bool" where
  none: "characters [] []"
| encoded: "is_scalar_value c \<Longrightarrow> characters rest cs \<Longrightarrow>
     characters (string_of_rune c @ rest) (c # cs)"
| stray: "(\<forall>c tail. is_scalar_value c \<longrightarrow> b # rest \<noteq> string_of_rune c @ tail) \<Longrightarrow>
     characters rest cs \<Longrightarrow> characters (b # rest) (RuneError # cs)"

text \<open>\<^verbatim>\<open>%d\<close> of \<^verbatim>\<open>fmt.Sprintf\<close>: the decimal digits, with a sign for a negative number.\<close>

fun decimal :: "nat \<Rightarrow> string" where
  "decimal n =
    (if n < 10 then [char_of (48 + n)] else decimal (n div 10) @ [char_of (48 + n mod 10)])"

declare decimal.simps [simp del]

definition Sprintf_d :: "int \<Rightarrow> string" where
  "Sprintf_d i = (if i < 0 then ''-'' @ decimal (nat (- i)) else decimal (nat i))"

text \<open>\<^verbatim>\<open>strings.Join\<close>.\<close>

fun Join :: "string list \<Rightarrow> string \<Rightarrow> string" where
  "Join [] sep = []"
| "Join [a] sep = a"
| "Join (a # b # rest) sep = a @ sep @ Join (b # rest) sep"

section \<open>Collaborators of the input facade\<close>

text \<open>
  A matcher is a predicate over one line of text, returning whether the line matches and a
  detail for diagnostics, with a name that describes it.
\<close>

record matcher =
  name :: string
  test :: "string \<Rightarrow> bool \<times> string"

text \<open>
  The keybinding table: the entries of \<^verbatim>\<open>config.KeybindingConfig\<close> that the facade reads.
\<close>

record KeybindingUniversalConfig =
  JumpToBlock :: "string list"
  Confirm :: string
  Return :: string
  Select :: string
  NextItem :: string
  PrevItem :: string
  CreateRebaseOptionsMenu :: string
  TogglePanel :: string

record KeybindingConfig =
  Universal :: KeybindingUniversalConfig

text \<open>
  The context that has the focus: one that implements \<^verbatim>\<open>types.IListContext\<close> or any
  other, each with the name of its view (\<^verbatim>\<open>GetView\<close>).
\<close>

datatype Context = IListContext string | OtherContext string

text \<open>The assertions of the \<^verbatim>\<open>Assert\<close> component that the facade calls.\<close>

datatype assertion =
    InListContext
  | InConfirm
  | InPrompt
  | InMenu
  | CurrentWindowName string
  | CurrentViewName string
  | CurrentViewTitle matcher
  | CurrentViewContent matcher
  | SelectedLine matcher

text \<open>
  What the harness does to the world, in order of time: it calls \<^verbatim>\<open>time.Sleep\<close> with a
  duration in nanoseconds, it calls the UI driver, and it evaluates the check behind an
  assertion once.
\<close>

datatype event =
    Slept int
  | PressedKey string
  | LoggedUI string
  | GotCurrentContext Context
  | GotViewBufferLines "string list"
  | GotSelectedLineIdx int
  | Checked assertion bool

text \<open>
  The UI driver, over the state \<^typ>\<open>'g\<close> of the live application. The application
  redraws on its own schedule, so a query returns its answer together with the state
  the application is in afterwards. \<open>ViewBufferLines\<close> and \<open>SelectedLineIdx\<close> are the
  queries on the view of a context, given by the name of the view, and \<open>idle\<close> is what
  the application does while the harness sleeps for the given number of nanoseconds.
\<close>

record 'g GuiDriver =
  PressKey :: "string \<Rightarrow> 'g \<Rightarrow> 'g"
  LogUI :: "string \<Rightarrow> 'g \<Rightarrow> 'g"
  CurrentContext :: "'g \<Rightarrow> Context \<times> 'g"
  ViewBufferLines :: "string \<Rightarrow> 'g \<Rightarrow> string list \<times> 'g"
  SelectedLineIdx :: "string \<Rightarrow> 'g \<Rightarrow> int \<times> 'g"
  idle :: "int \<Rightarrow> 'g \<Rightarrow> 'g"

text \<open>
  Modelled from the spec: the \<^verbatim>\<open>Assert\<close> component, whose source is absent. \<open>check\<close> is
  one evaluation of the check behind an assertion, which reads the application. A polled
  assertion evaluates its check with a fixed delay between attempts and a fixed number of
  attempts (spec 4.2); a violated precondition is reported at once and not retried
  (spec 7), and \<open>immediate\<close> says which assertions are such preconditions.
\<close>

record 'g Assert =
  check :: "assertion \<Rightarrow> 'g \<Rightarrow> (bool \<times> string) \<times> 'g"
  retryDelay :: int
  maxAttempts :: nat
  immediate :: "assertion \<Rightarrow> bool"

record 'g Input =
  gui :: "'g GuiDriver"
  keys :: KeybindingConfig
  "assert" :: "'g Assert"
  pushKeyDelay :: int

definition NewInput ::
  "'g GuiDriver \<Rightarrow> KeybindingConfig \<Rightarrow> 'g Assert \<Rightarrow> int \<Rightarrow> 'g Input" where
  "NewInput g ks a delay = \<lparr>gui = g, keys = ks, assert = a, pushKeyDelay = delay\<rparr>"

text \<open>The world: the application and what has happened to it so far.\<close>

record 'g world =
  app :: 'g
  trace :: "event list"

text \<open>
  A scenario stops at the first failure: a failed assertion, or a Go run-time panic
  (an index out of range, a failed interface conversion).
\<close>

datatype error =
    Failed string
  | IndexOutOfRange nat nat
  | InterfaceConversion

type_synonym ('a, 'g) outcome = "(error + 'a) \<times> 'g world"

definition andThen ::
  "('a, 'g) outcome \<Rightarrow> ('a \<Rightarrow> 'g world \<Rightarrow> ('b, 'g) outcome) \<Rightarrow> ('b, 'g) outcome" where
  "andThen r f = (case r of (Inl e, w) \<Rightarrow> (Inl e, w) | (Inr a, w) \<Rightarrow> f a w)"

text \<open>The events that happened from the world \<open>w\<close> to the later world \<open>w'\<close>.\<close>

definition since :: "'g world \<Rightarrow> 'g world \<Rightarrow> event list" where
  "since w w' = drop (length (trace w)) (trace w')"

fun key_presses :: "event list \<Rightarrow> string list" where
  "key_presses [] = []"
| "key_presses (PressedKey k # es) = k # key_presses es"
| "key_presses (e # es) = key_presses es"

section \<open>Key presses\<close>

text \<open>
  A \<^verbatim>\<open>time.Duration\<close> is a signed 64-bit count of nanoseconds, and arithmetic on it
  wraps around.
\<close>

definition int64 :: "int \<Rightarrow> int" where
  "int64 i = (i + 2 ^ 63) mod 2 ^ 64 - 2 ^ 63"

definition Millisecond :: int where
  "Millisecond = 1000000"

text \<open>The duration \<^verbatim>\<open>time.Duration(milliseconds) * time.Millisecond\<close>.\<close>

definition nanoseconds :: "int \<Rightarrow> int" where
  "nanoseconds milliseconds = int64 (int64 milliseconds * Millisecond)"

text \<open>
  \<^verbatim>\<open>time.Sleep\<close>: the application runs on its own for the duration; a zero or negative
  duration returns at once.
\<close>

definition Sleep :: "'g GuiDriver \<Rightarrow> int \<Rightarrow> 'g world \<Rightarrow> 'g world" where
  "Sleep driver d w =
     w\<lparr>app := (if 0 < d then idle driver d (app w) else app w), trace := trace w @ [Slept d]\<rparr>"

definition Wait :: "'g Input \<Rightarrow> int \<Rightarrow> 'g world \<Rightarrow> 'g world" where
  "Wait self milliseconds w = Sleep (gui self) (nanoseconds milliseconds) w"

definition press :: "'g Input \<Rightarrow> string \<Rightarrow> 'g world \<Rightarrow> 'g world" where
  "press self keyStr w =
     (let w1 = Wait self (pushKeyDelay self) w
      in w1\<lparr>app := PressKey (gui self) keyStr (app w1), trace := trace w1 @ [PressedKey keyStr]\<rparr>)"

definition Press :: "'g Input \<Rightarrow> string list \<Rightarrow> 'g world \<Rightarrow> 'g world" where
  "Press self keyStrs w = fold (press self) keyStrs w"

definition Type :: "'g Input \<Rightarrow> string \<Rightarrow> 'g world \<Rightarrow> 'g world" where
  "Type self content w = fold (\<lambda>char. press self (string_of_rune char)) (runes content) w"

definition Confirm :: "'g Input \<Rightarrow> 'g world \<Rightarrow> 'g world" where
  "Confirm self w = press self (KeybindingUniversalConfig.Confirm (Universal (keys self))) w"

definition Enter :: "'g Input \<Rightarrow> 'g world \<Rightarrow> 'g world" where
  "Enter self w = press self (KeybindingUniversalConfig.Confirm (Universal (keys self))) w"

definition Cancel :: "'g Input \<Rightarrow> 'g world \<Rightarrow> 'g world" where
  "Cancel self w = press self (Return (Universal (keys self))) w"

definition PrimaryAction :: "'g Input \<Rightarrow> 'g world \<Rightarrow> 'g world" where
  "PrimaryAction self w = press self (Select (Universal (keys self))) w"

definition NextItem :: "'g Input \<Rightarrow> 'g world \<Rightarrow> 'g world" where
  "NextItem self w = press self (KeybindingUniversalConfig.NextItem (Universal (keys self))) w"

definition PreviousItem :: "'g Input \<Rightarrow> 'g world \<Rightarrow> 'g world" where
  "PreviousItem self w = press self (PrevItem (Universal (keys self))) w"

definition LogUI :: "'g Input \<Rightarrow> string \<Rightarrow> 'g world \<Rightarrow> 'g world" where
  "LogUI self message w =
     w\<lparr>app := GuiDriver.LogUI (gui self) message (app w), trace := trace w @ [LoggedUI message]\<rparr>"

definition Log :: "'g Input \<Rightarrow> string \<Rightarrow> 'g world \<Rightarrow> 'g world" where
  "Log self message w =
     w\<lparr>app := GuiDriver.LogUI (gui self) message (app w), trace := trace w @ [LoggedUI message]\<rparr>"

section \<open>Assertions\<close>

text \<open>
  Modelled from the spec: the retrying poll primitive \<^verbatim>\<open>assertWithRetries\<close> of the absent
  \<^verbatim>\<open>Assert\<close> component (spec 4.2). It evaluates the check; on success it returns, on
  failure it sleeps for the fixed delay and tries again, until the attempt budget is used
  up, and then fails the scenario with the last reason. The check is a closure: the value
  \<^typ>\<open>'c\<close> is what it leaves in the variables it captured.
\<close>

fun retrying ::
  "'g Input \<Rightarrow> ('g world \<Rightarrow> ((bool \<times> string) \<times> 'c) \<times> 'g world) \<Rightarrow> nat \<Rightarrow> string \<Rightarrow> 'g world
     \<Rightarrow> ('c, 'g) outcome" where
  "retrying self chk 0 message w = (Inl (Failed message), w)"
| "retrying self chk (Suc n) message w =
     (case chk w of
        (((ok, reason), captured), w1) \<Rightarrow>
          if ok then (Inr captured, w1)
          else retrying self chk n reason (Wait self (retryDelay (assert self)) w1))"

definition assertWithRetries ::
  "'g Input \<Rightarrow> ('g world \<Rightarrow> ((bool \<times> string) \<times> 'c) \<times> 'g world) \<Rightarrow> 'g world \<Rightarrow> ('c, 'g) outcome" where
  "assertWithRetries self chk w = retrying self chk (maxAttempts (assert self)) [] w"

text \<open>
  Modelled from the spec: an assertion of the absent \<^verbatim>\<open>Assert\<close> component. One attempt
  evaluates the check of the assertion once. A precondition fails the scenario when its
  one attempt fails; every other assertion polls through the retrying primitive.
\<close>

definition attempt ::
  "'g Input \<Rightarrow> assertion \<Rightarrow> 'g world \<Rightarrow> ((bool \<times> string) \<times> unit) \<times> 'g world" where
  "attempt self a w =
     (case check (assert self) a (app w) of
        ((ok, reason), g) \<Rightarrow>
          (((ok, reason), ()), w\<lparr>app := g, trace := trace w @ [Checked a ok]\<rparr>))"

definition asserts :: "'g Input \<Rightarrow> assertion \<Rightarrow> 'g world \<Rightarrow> (unit, 'g) outcome" where
  "asserts self a w =
     (if immediate (assert self) a then
        (case attempt self a w of
           (((ok, reason), _), w1) \<Rightarrow> if ok then (Inr (), w1) else (Inl (Failed reason), w1))
      else assertWithRetries self (attempt self a) w)"

section \<open>Panel switching\<close>

text \<open>Indexing a Go slice panics when the index is out of range.\<close>

definition index :: "'a list \<Rightarrow> nat \<Rightarrow> error + 'a" where
  "index xs i = (if i < length xs then Inr (xs ! i) else Inl (IndexOutOfRange i (length xs)))"

text \<open>
  The key is looked up before \<^verbatim>\<open>press\<close> is entered, so a panic of the lookup comes
  before the settle delay.
\<close>

definition SwitchToStatusWindow :: "'g Input \<Rightarrow> 'g world \<Rightarrow> (unit, 'g) outcome" where
  "SwitchToStatusWindow self w =
     (case index (JumpToBlock (Universal (keys self))) 0 of
        Inl e \<Rightarrow> (Inl e, w)
      | Inr keyStr \<Rightarrow> asserts self (CurrentWindowName ''status'') (press self keyStr w))"

definition SwitchToFilesWindow :: "'g Input \<Rightarrow> 'g world \<Rightarrow> (unit, 'g) outcome" where
  "SwitchToFilesWindow self w =
     (case index (JumpToBlock (Universal (keys self))) 1 of
        Inl e \<Rightarrow> (Inl e, w)
      | Inr keyStr \<Rightarrow> asserts self (CurrentWindowName ''files'') (press self keyStr w))"

definition SwitchToBranchesWindow :: "'g Input \<Rightarrow> 'g world \<Rightarrow> (unit, 'g) outcome" where
  "SwitchToBranchesWindow self w =
     (case index (JumpToBlock (Universal (keys self))) 2 of
        Inl e \<Rightarrow> (Inl e, w)
      | Inr keyStr \<Rightarrow> asserts self (CurrentWindowName ''localBranches'') (press self keyStr w))"

definition SwitchToCommitsWindow :: "'g Input \<Rightarrow> 'g world \<Rightarrow> (unit, 'g) outcome" where
  "SwitchToCommitsWindow self w =
     (case index (JumpToBlock (Universal (keys self))) 3 of
        Inl e \<Rightarrow> (Inl e, w)
      | Inr keyStr \<Rightarrow> asserts self (CurrentWindowName ''commits'') (press self keyStr w))"

definition SwitchToStashWindow :: "'g Input \<Rightarrow> 'g world \<Rightarrow> (unit, 'g) outcome" where
  "SwitchToStashWindow self w =
     (case index (JumpToBlock (Universal (keys self))) 4 of
        Inl e \<Rightarrow> (Inl e, w)
      | Inr keyStr \<Rightarrow> asserts self (CurrentWindowName ''stash'') (press self keyStr w))"

section \<open>Continuing a merge or a rebase\<close>

text \<open>
  Modelled from the spec: the matcher constructor \<^verbatim>\<open>Contains\<close>, whose source is absent:
  substring containment (spec 4.1), with a name that describes the intent.
\<close>

fun HasPrefix :: "string \<Rightarrow> string \<Rightarrow> bool" where
  "HasPrefix s [] = True"
| "HasPrefix [] (p # ps) = False"
| "HasPrefix (c # s) (p # ps) = (c = p \<and> HasPrefix s ps)"

fun strings_Contains :: "string \<Rightarrow> string \<Rightarrow> bool" where
  "strings_Contains [] substr = (substr = [])"
| "strings_Contains (c # s) substr = (HasPrefix (c # s) substr \<or> strings_Contains s substr)"

definition Contains :: "string \<Rightarrow> matcher" where
  "Contains target =
     \<lparr>name = ''contains '' @ target,
      test = (\<lambda>value. (strings_Contains value target, ''expected to contain '' @ target))\<rparr>"

definition ContinueMerge :: "'g Input \<Rightarrow> 'g world \<Rightarrow> (unit, 'g) outcome" where
  "ContinueMerge self w =
     andThen (asserts self (SelectedLine (Contains ''continue''))
                (Press self [CreateRebaseOptionsMenu (Universal (keys self))] w))
       (\<lambda>_ w. (Inr (), Confirm self w))"

definition ContinueRebase :: "'g Input \<Rightarrow> 'g world \<Rightarrow> (unit, 'g) outcome" where
  "ContinueRebase self w = ContinueMerge self w"

section \<open>Navigating to a list item\<close>

text \<open>
  The loop over the visible lines inside the check: \<open>i\<close> is the index of the line at the
  head, and the pair is \<^verbatim>\<open>matches\<close> and \<^verbatim>\<open>matchIndex\<close>.
\<close>

fun scan_lines :: "matcher \<Rightarrow> string list \<Rightarrow> int \<Rightarrow> string list \<times> int \<Rightarrow> string list \<times> int" where
  "scan_lines m [] i acc = acc"
| "scan_lines m (line # rest) i (matches, matchIndex) =
     (if fst (test m line)
      then scan_lines m rest (i + 1) (matches @ [line], i)
      else scan_lines m rest (i + 1) (matches, matchIndex))"

text \<open>
  The check of one attempt, on the lines it has read: the outcome of the attempt and
  \<^verbatim>\<open>matchIndex\<close> as the closure leaves it.
\<close>

definition list_item_verdict :: "matcher \<Rightarrow> string list \<Rightarrow> (bool \<times> string) \<times> int" where
  "list_item_verdict m buffer =
     (case scan_lines m buffer 0 ([], - 1) of
        (matches, matchIndex) \<Rightarrow>
          if length matches > 1 then
            ((False, ''Found '' @ Sprintf_d (int (length matches)) @ '' matches for `'' @ name m
                       @ ''`, expected only a single match. Lines:'' @ [CHR 0x0A]
                       @ Join matches [CHR 0x0A]), matchIndex)
          else if length matches = 0 then
            ((False, ''Could not find item matching: '' @ name m), matchIndex)
          else ((True, []), matchIndex))"

definition list_item_check ::
  "'g Input \<Rightarrow> string \<Rightarrow> matcher \<Rightarrow> 'g world \<Rightarrow> ((bool \<times> string) \<times> int) \<times> 'g world" where
  "list_item_check self view m w =
     (case ViewBufferLines (gui self) view (app w) of
        (buffer, g) \<Rightarrow>
          (list_item_verdict m buffer, w\<lparr>app := g, trace := trace w @ [GotViewBufferLines buffer]\<rparr>))"

text \<open>
  The two cycles that press a directional key once per step of \<open>i\<close>. The counter runs
  between the selected index and \<^verbatim>\<open>matchIndex\<close>, so the machine integer of the source
  never wraps and \<^typ>\<open>int\<close> models it exactly.
\<close>

function next_items :: "'g Input \<Rightarrow> int \<Rightarrow> int \<Rightarrow> 'g world \<Rightarrow> 'g world" where
  "next_items self i matchIndex w =
     (if i < matchIndex then next_items self (i + 1) matchIndex (NextItem self w) else w)"
  by pat_completeness auto
termination
  by (relation "measure (\<lambda>(self, i, matchIndex, w). nat (matchIndex - i))") auto

function previous_items :: "'g Input \<Rightarrow> int \<Rightarrow> int \<Rightarrow> 'g world \<Rightarrow> 'g world" where
  "previous_items self i matchIndex w =
     (if i > matchIndex then previous_items self (i - 1) matchIndex (PreviousItem self w) else w)"
  by pat_completeness auto
termination
  by (relation "measure (\<lambda>(self, i, matchIndex, w). nat (i - matchIndex))") auto

declare next_items.simps [simp del] previous_items.simps [simp del]

text \<open>
  The part of \<^verbatim>\<open>NavigateToListItem\<close> after the poll: it reads the index of the selected
  line, presses the directional key once per line between that index and \<^verbatim>\<open>matchIndex\<close>,
  and asserts that the selected line satisfies the matcher.
\<close>

definition move_selection ::
  "'g Input \<Rightarrow> matcher \<Rightarrow> string \<Rightarrow> int \<Rightarrow> 'g world \<Rightarrow> (unit, 'g) outcome" where
  "move_selection self m view matchIndex w =
     (case SelectedLineIdx (gui self) view (app w) of
        (selectedLineIdx, g) \<Rightarrow>
          let w1 = w\<lparr>app := g, trace := trace w @ [GotSelectedLineIdx selectedLineIdx]\<rparr> in
          if selectedLineIdx = matchIndex then asserts self (SelectedLine m) w1
          else if selectedLineIdx < matchIndex then
            asserts self (SelectedLine m) (next_items self selectedLineIdx matchIndex w1)
          else
            asserts self (SelectedLine m) (previous_items self selectedLineIdx matchIndex w1))"

definition NavigateToListItem :: "'g Input \<Rightarrow> matcher \<Rightarrow> 'g world \<Rightarrow> (unit, 'g) outcome" where
  "NavigateToListItem self m w =
     andThen (asserts self InListContext w) (\<lambda>_ w1.
       case CurrentContext (gui self) (app w1) of
         (currentContext, g) \<Rightarrow>
           let w2 = w1\<lparr>app := g, trace := trace w1 @ [GotCurrentContext currentContext]\<rparr> in
           (case currentContext of
              OtherContext _ \<Rightarrow> (Inl InterfaceConversion, w2)
            | IListContext view \<Rightarrow>
                andThen (assertWithRetries self (list_item_check self view m) w2)
                  (move_selection self m view)))"

section \<open>Modal flows\<close>

definition AcceptConfirmation ::
  "'g Input \<Rightarrow> matcher \<Rightarrow> matcher \<Rightarrow> 'g world \<Rightarrow> (unit, 'g) outcome" where
  "AcceptConfirmation self title content w =
     andThen (asserts self InConfirm w) (\<lambda>_ w.
     andThen (asserts self (CurrentViewTitle title) w) (\<lambda>_ w.
     andThen (asserts self (CurrentViewContent content) w) (\<lambda>_ w.
     (Inr (), Confirm self w))))"

definition DenyConfirmation ::
  "'g Input \<Rightarrow> matcher \<Rightarrow> matcher \<Rightarrow> 'g world \<Rightarrow> (unit, 'g) outcome" where
  "DenyConfirmation self title content w =
     andThen (asserts self InConfirm w) (\<lambda>_ w.
     andThen (asserts self (CurrentViewTitle title) w) (\<lambda>_ w.
     andThen (asserts self (CurrentViewContent content) w) (\<lambda>_ w.
     (Inr (), Cancel self w))))"

definition Prompt :: "'g Input \<Rightarrow> matcher \<Rightarrow> string \<Rightarrow> 'g world \<Rightarrow> (unit, 'g) outcome" where
  "Prompt self title textToType w =
     andThen (asserts self InPrompt w) (\<lambda>_ w.
     andThen (asserts self (CurrentViewTitle title) w) (\<lambda>_ w.
     (Inr (), Confirm self (Type self textToType w))))"

definition Typeahead ::
  "'g Input \<Rightarrow> matcher \<Rightarrow> string \<Rightarrow> matcher \<Rightarrow> 'g world \<Rightarrow> (unit, 'g) outcome" where
  "Typeahead self title textToType expectedFirstOption w =
     andThen (asserts self InPrompt w) (\<lambda>_ w.
     andThen (asserts self (CurrentViewTitle title) w) (\<lambda>_ w.
     andThen (asserts self (CurrentViewName ''suggestions'')
                (Press self [TogglePanel (Universal (keys self))] (Type self textToType w))) (\<lambda>_ w.
     andThen (asserts self (SelectedLine expectedFirstOption) w) (\<lambda>_ w.
     (Inr (), Confirm self w)))))"

definition Menu :: "'g Input \<Rightarrow> matcher \<Rightarrow> matcher \<Rightarrow> 'g world \<Rightarrow> (unit, 'g) outcome" where
  "Menu self title optionToSelect w =
     andThen (asserts self InMenu w) (\<lambda>_ w.
     andThen (asserts self (CurrentViewTitle title) w) (\<lambda>_ w.
     andThen (NavigateToListItem self optionToSelect w) (\<lambda>_ w.
     (Inr (), Confirm self w))))"

definition Alert :: "'g Input \<Rightarrow> matcher \<Rightarrow> matcher \<Rightarrow> 'g world \<Rightarrow> (unit, 'g) outcome" where
  "Alert self title content w =
     andThen (asserts self InListContext w) (\<lambda>_ w.
     andThen (asserts self (CurrentViewTitle title) w) (\<lambda>_ w.
     andThen (asserts self (CurrentViewContent content) w) (\<lambda>_ w.
     (Inr (), Confirm self w))))"

section \<open>Properties of traces\<close>

fun is_press :: "event \<Rightarrow> bool" where
  "is_press (PressedKey k) = True"
| "is_press e = False"

text \<open>
  Every key press of the events comes right after a sleep of the given duration, in
  nanoseconds.
\<close>

definition delay_before_each_press :: "int \<Rightarrow> event list \<Rightarrow> bool" where
  "delay_before_each_press delay es =
     (\<forall>i<length es. is_press (es ! i) \<longrightarrow> 0 < i \<and> es ! (i - 1) = Slept delay)"

text \<open>
  The later world \<open>w'\<close> continues the trace of \<open>w\<close>, and every key press since \<open>w\<close> comes
  right after a sleep of the given delay.
\<close>

definition paced :: "int \<Rightarrow> 'g world \<Rightarrow> 'g world \<Rightarrow> bool" where
  "paced delay w w' =
     (trace w' = trace w @ since w w' \<and> delay_before_each_press delay (since w w'))"

text \<open>
  No key is pressed before the assertions of the list have passed, one after the other
  in the order of the list.
\<close>

fun asserted_first :: "assertion list \<Rightarrow> event list \<Rightarrow> bool" where
  "asserted_first [] es = True"
| "asserted_first (a # as) [] = True"
| "asserted_first (a # as) (e # es) =
     (if e = Checked a True then asserted_first as es
      else \<not> is_press e \<and> asserted_first (a # as) es)"

text \<open>The lines of a buffer that satisfy a matcher, and a buffer with one such line.\<close>

definition matching_lines :: "matcher \<Rightarrow> string list \<Rightarrow> string list" where
  "matching_lines m buffer = filter (\<lambda>line. fst (test m line)) buffer"

definition matches_only_at :: "matcher \<Rightarrow> string list \<Rightarrow> nat \<Rightarrow> bool" where
  "matches_only_at m buffer i = ([j \<leftarrow> [0..<length buffer]. fst (test m (buffer ! j))] = [i])"

section \<open>An application that shows a list\<close>

text \<open>
  What the navigation relies on in the application: the focus is on a list context whose
  view shows the lines \<open>L g\<close> with the selection at \<open>S g\<close>; queries and checks read the
  application without changing it; the list-context check holds and the selected-line
  check tests the selected line; sleeping changes neither the lines nor the selection;
  the key for the next item moves the selection down by one line while there is one, and
  the key for the previous item moves it up by one line while there is one.
\<close>

definition shows_list :: "'g Input \<Rightarrow> ('g \<Rightarrow> string list) \<Rightarrow> ('g \<Rightarrow> int) \<Rightarrow> bool" where
  "shows_list self L S =
     ((\<exists>view. \<forall>g. CurrentContext (gui self) g = (IListContext view, g)
                  \<and> ViewBufferLines (gui self) view g = (L g, g)
                  \<and> SelectedLineIdx (gui self) view g = (S g, g))
      \<and> (\<forall>g. fst (fst (check (assert self) InListContext g))
              \<and> snd (check (assert self) InListContext g) = g)
      \<and> (\<forall>m g. snd (check (assert self) (SelectedLine m) g) = g
                \<and> (0 \<le> S g \<and> S g < int (length (L g)) \<longrightarrow>
                     fst (fst (check (assert self) (SelectedLine m) g))
                       = fst (test m (L g ! nat (S g)))))
      \<and> (\<forall>d g. L (idle (gui self) d g) = L g \<and> S (idle (gui self) d g) = S g)
      \<and> (\<forall>g. L (PressKey (gui self) (KeybindingUniversalConfig.NextItem (Universal (keys self))) g) = L g
              \<and> (S g + 1 < int (length (L g)) \<longrightarrow>
                   S (PressKey (gui self) (KeybindingUniversalConfig.NextItem (Universal (keys self))) g)
                     = S g + 1))
      \<and> (\<forall>g. L (PressKey (gui self) (PrevItem (Universal (keys self))) g) = L g
              \<and> (0 < S g \<longrightarrow>
                   S (PressKey (gui self) (PrevItem (Universal (keys self))) g) = S g - 1)))"

section \<open>Example applications\<close>

text \<open>A list view: the lines it shows and the index of the selected line.\<close>

record screen =
  screen_lines :: "string list"
  screen_selected :: int

definition selected_line :: "screen \<Rightarrow> string" where
  "selected_line g =
     (if 0 \<le> screen_selected g \<and> screen_selected g < int (length (screen_lines g)) then screen_lines g ! nat (screen_selected g)
      else [])"

definition press_on_screen :: "KeybindingConfig \<Rightarrow> string \<Rightarrow> screen \<Rightarrow> screen" where
  "press_on_screen ks k g =
     (if k = KeybindingUniversalConfig.NextItem (Universal ks)
         \<and> screen_selected g + 1 < int (length (screen_lines g))
      then g\<lparr>screen_selected := screen_selected g + 1\<rparr>
      else if k = PrevItem (Universal ks) \<and> 0 < screen_selected g
      then g\<lparr>screen_selected := screen_selected g - 1\<rparr>
      else g)"

fun check_on_screen :: "assertion \<Rightarrow> screen \<Rightarrow> bool \<times> string" where
  "check_on_screen (SelectedLine m) g = test m (selected_line g)"
| "check_on_screen a g = (True, [])"

text \<open>The assertions on the kind of the context that has the focus.\<close>

fun is_precondition :: "assertion \<Rightarrow> bool" where
  "is_precondition InListContext = True"
| "is_precondition InConfirm = True"
| "is_precondition InPrompt = True"
| "is_precondition InMenu = True"
| "is_precondition a = False"

definition list_view :: "KeybindingConfig \<Rightarrow> screen GuiDriver" where
  "list_view ks =
     \<lparr>PressKey = press_on_screen ks,
      LogUI = (\<lambda>message g. g),
      CurrentContext = (\<lambda>g. (IListContext ''commits'', g)),
      ViewBufferLines = (\<lambda>view g. (screen_lines g, g)),
      SelectedLineIdx = (\<lambda>view g. (screen_selected g, g)),
      idle = (\<lambda>d g. g)\<rparr>"

definition list_view_assert :: "screen Assert" where
  "list_view_assert =
     \<lparr>check = (\<lambda>a g. (check_on_screen a g, g)), retryDelay = 100, maxAttempts = 3,
      immediate = is_precondition\<rparr>"

definition example_keys :: KeybindingConfig where
  "example_keys =
     \<lparr>Universal =
        \<lparr>JumpToBlock = [''1'', ''2'', ''3'', ''4'', ''5''],
         Confirm = ''<enter>'',
         Return = ''<esc>'',
         Select = ''<space>'',
         NextItem = ''<down>'',
         PrevItem = ''<up>'',
         CreateRebaseOptionsMenu = ''m'',
         TogglePanel = ''<tab>''\<rparr>\<rparr>"

definition example_input :: "screen Input" where
  "example_input = NewInput (list_view example_keys) example_keys list_view_assert 50"

definition commits :: "string list" where
  "commits = [''commit 05'', ''commit 04'', ''commit 03'', ''commit 02'', ''commit 01'']"

definition commits_world :: "int \<Rightarrow> screen world" where
  "commits_world s = \<lparr>app = \<lparr>screen_lines = commits, screen_selected = s\<rparr>, trace = []\<rparr>"

text \<open>
  A list view in the middle of a redraw: the selection is about to move to the pending
  index, and the move lands right after the lines have been read.
\<close>

definition land :: "screen \<times> int option \<Rightarrow> screen \<times> int option" where
  "land g = (case snd g of None \<Rightarrow> g | Some i \<Rightarrow> ((fst g)\<lparr>screen_selected := i\<rparr>, None))"

definition redrawing_view :: "KeybindingConfig \<Rightarrow> (screen \<times> int option) GuiDriver" where
  "redrawing_view ks =
     \<lparr>PressKey = (\<lambda>k g. (press_on_screen ks k (fst g), snd g)),
      LogUI = (\<lambda>message g. g),
      CurrentContext = (\<lambda>g. (IListContext ''commits'', g)),
      ViewBufferLines = (\<lambda>view g. (screen_lines (fst g), land g)),
      SelectedLineIdx = (\<lambda>view g. (screen_selected (fst g), g)),
      idle = (\<lambda>d g. g)\<rparr>"

definition redrawing_assert :: "(screen \<times> int option) Assert" where
  "redrawing_assert =
     \<lparr>check = (\<lambda>a g. (check_on_screen a (fst g), g)), retryDelay = 100, maxAttempts = 3,
      immediate = is_precondition\<rparr>"

definition redrawing_input :: "(screen \<times> int option) Input" where
  "redrawing_input =
     NewInput (redrawing_view example_keys) example_keys redrawing_assert 50"

definition redrawing_world :: "(screen \<times> int option) world" where
  "redrawing_world = \<lparr>app = (\<lparr>screen_lines = commits, screen_selected = 0\<rparr>, Some 4), trace = []\<rparr>"

text \<open>A keybinding table whose jump-to-block family has four entries.\<close>

definition four_block_keys :: KeybindingConfig where
  "four_block_keys =
     example_keys\<lparr>Universal := (Universal example_keys)\<lparr>JumpToBlock := [''1'', ''2'', ''3'', ''4'']\<rparr>\<rparr>"

definition four_block_input :: "screen Input" where
  "four_block_input = NewInput (list_view four_block_keys) four_block_keys list_view_assert 50"

text \<open>
  An application that only keeps the time it has had to itself, in nanoseconds, and an
  input facade on it whose settle delay is 9223372036855 milliseconds.
\<close>

definition stopwatch :: "int GuiDriver" where
  "stopwatch =
     \<lparr>PressKey = (\<lambda>k g. g),
      LogUI = (\<lambda>message g. g),
      CurrentContext = (\<lambda>g. (OtherContext ''main'', g)),
      ViewBufferLines = (\<lambda>view g. ([], g)),
      SelectedLineIdx = (\<lambda>view g. (0, g)),
      idle = (\<lambda>d g. g + d)\<rparr>"

definition stopwatch_assert :: "int Assert" where
  "stopwatch_assert =
     \<lparr>check = (\<lambda>a g. ((True, []), g)), retryDelay = 100, maxAttempts = 3,
      immediate = is_precondition\<rparr>"

definition stopwatch_input :: "int \<Rightarrow> int Input" where
  "stopwatch_input delay = NewInput stopwatch example_keys stopwatch_assert delay"

definition stopwatch_world :: "int world" where
  "stopwatch_world = \<lparr>app = 0, trace = []\<rparr>"

section \<open>Traces of key presses\<close>

lemma int64_in_range:
  "- 9223372036854775808 \<le> i \<Longrightarrow> i \<le> 9223372036854775807 \<Longrightarrow> int64 i = i"
  by (simp add: int64_def)

lemma nanoseconds_in_range:
  assumes "- 9223372036854 \<le> ms" and "ms \<le> 9223372036854"
  shows "nanoseconds ms = ms * 1000000"
proof -
  from assms have "int64 ms = ms" by (intro int64_in_range) simp_all
  moreover from assms have "int64 (ms * 1000000) = ms * 1000000"
    by (intro int64_in_range) simp_all
  ultimately show ?thesis by (simp add: nanoseconds_def Millisecond_def)
qed

lemma nanoseconds_50: "nanoseconds 50 = 50000000"
  by (simp add: nanoseconds_in_range)

lemma trace_Wait: "trace (Wait self ms w) = trace w @ [Slept (nanoseconds ms)]"
  by (simp add: Wait_def Sleep_def)

lemma trace_press:
  "trace (press self k w) = trace w @ [Slept (nanoseconds (pushKeyDelay self)), PressedKey k]"
  by (simp add: press_def Let_def trace_Wait)


lemma since_append: "trace w' = trace w @ es \<Longrightarrow> since w w' = es"
  by (simp add: since_def)

section \<open>The characters of a string\<close>

text \<open>
  The decoder agrees with the encoder: it decodes the encoding of every Unicode scalar
  value, and what it decodes with a width other than one stray byte is a scalar value
  whose encoding stands at the head of the bytes. So the runes of the iteration over a
  string are the characters of the string.
\<close>

lemma mod_offset: "a < n \<Longrightarrow> (q * n + a) mod n = (a::nat)"
  by simp

lemma m32: "a < 0x20 \<Longrightarrow> (0xC0 + a) mod 0x20 = (a::nat)"
  using mod_offset [of a "0x20" 6] by simp

lemma m64: "b < 0x40 \<Longrightarrow> (0x80 + b) mod 0x40 = (b::nat)"
  using mod_offset [of b "0x40" 2] by simp

lemma m16: "a < 0x10 \<Longrightarrow> (0xE0 + a) mod 0x10 = (a::nat)"
  using mod_offset [of a "0x10" 14] by simp

lemma m8: "a < 8 \<Longrightarrow> (0xF0 + a) mod 8 = (a::nat)"
  using mod_offset [of a 8 30] by simp

lemma split2: "(c::nat) = (c div 0x40) * 0x40 + c mod 0x40" by simp

lemma split3: "(c::nat) = (c div 0x1000) * 0x1000 + ((c div 0x40) mod 0x40) * 0x40 + c mod 0x40"
proof -
  have 1: "c = (c div 0x40) * 0x40 + c mod 0x40" by simp
  have 2: "c div 0x40 = (c div 0x1000) * 0x40 + (c div 0x40) mod 0x40"
  proof -
    have "c div 0x1000 = c div 0x40 div 0x40" by (simp add: div_mult2_eq [symmetric])
    then show ?thesis by simp
  qed
  have "c = ((c div 0x1000) * 0x40 + (c div 0x40) mod 0x40) * 0x40 + c mod 0x40"
    using 1 2 by simp
  then show ?thesis by (simp add: algebra_simps)
qed

lemma split4:
  "(c::nat) = (c div 0x40000) * 0x40000 + ((c div 0x1000) mod 0x40) * 0x1000
       + ((c div 0x40) mod 0x40) * 0x40 + c mod 0x40"
proof -
  have 1: "c = (c div 0x1000) * 0x1000 + ((c div 0x40) mod 0x40) * 0x40 + c mod 0x40"
    by (rule split3)
  have 2: "c div 0x1000 = (c div 0x40000) * 0x40 + (c div 0x1000) mod 0x40"
  proof -
    have "c div 0x40000 = c div 0x1000 div 0x40" by (simp add: div_mult2_eq [symmetric])
    then show ?thesis by simp
  qed
  have "c = ((c div 0x40000) * 0x40 + (c div 0x1000) mod 0x40) * 0x1000
              + ((c div 0x40) mod 0x40) * 0x40 + c mod 0x40"
    using 1 2 by simp
  then show ?thesis by (simp add: algebra_simps)
qed


lemma decode_one: "c < 0x80 \<Longrightarrow> DecodeRune (EncodeRune c @ rest) = (c, length (EncodeRune c))"
  by (simp add: EncodeRune_def)

lemma decode_two:
  assumes "0x80 \<le> c" "c < 0x800"
  shows "DecodeRune (EncodeRune c @ rest) = (c, length (EncodeRune c))"
proof -
  define a where "a = c div 0x40"
  define b where "b = c mod 0x40"
  have c: "c = a * 0x40 + b" by (simp add: a_def b_def)
  have b: "b < 0x40" by (simp add: b_def)
  have a: "2 \<le> a" "a < 0x20" using assms c b by linarith+
  have e: "EncodeRune c = [0xC0 + a, 0x80 + b]"
    using assms by (simp add: EncodeRune_def a_def b_def)
  have "DecodeRune ([0xC0 + a, 0x80 + b] @ rest) = (a * 0x40 + b, 2)"
    using a b by (simp add: in_range_def m32 m64)
  then show ?thesis by (simp add: e c [symmetric])
qed

lemma decode_three:
  assumes "0x800 \<le> c" "c < 0x10000" "\<not> (0xD800 \<le> c \<and> c \<le> 0xDFFF)"
  shows "DecodeRune (EncodeRune c @ rest) = (c, length (EncodeRune c))"
proof -
  define a where "a = c div 0x1000"
  define b where "b = (c div 0x40) mod 0x40"
  define d where "d = c mod 0x40"
  have c: "c = a * 0x1000 + b * 0x40 + d" unfolding a_def b_def d_def by (rule split3)
  have b: "b < 0x40" by (simp add: b_def)
  have d: "d < 0x40" by (simp add: d_def)
  have a: "a < 0x10" using assms c b d by linarith
  have lo: "a = 0 \<Longrightarrow> 0x20 \<le> b" using assms c b d by linarith
  have hi: "a = 0xD \<Longrightarrow> b < 0x20" using assms c b d by linarith
  have ns: "\<not> (0x10FFFF < c \<or> (0xD800 \<le> c \<and> c \<le> 0xDFFF))" using assms by auto
  have e: "EncodeRune c = [0xE0 + a, 0x80 + b, 0x80 + d]"
    using assms by (auto simp add: EncodeRune_def a_def b_def d_def)
  have "DecodeRune ([0xE0 + a, 0x80 + b, 0x80 + d] @ rest) = (a * 0x1000 + b * 0x40 + d, 3)"
    using a b d lo hi by (auto simp add: in_range_def m16 m64)
  then show ?thesis by (simp add: e c [symmetric])
qed

lemma decode_four:
  assumes "0x10000 \<le> c" "c < 0x110000"
  shows "DecodeRune (EncodeRune c @ rest) = (c, length (EncodeRune c))"
proof -
  define a where "a = c div 0x40000"
  define b where "b = (c div 0x1000) mod 0x40"
  define d where "d = (c div 0x40) mod 0x40"
  define f where "f = c mod 0x40"
  have c: "c = a * 0x40000 + b * 0x1000 + d * 0x40 + f"
    unfolding a_def b_def d_def f_def by (rule split4)
  have b: "b < 0x40" by (simp add: b_def)
  have d: "d < 0x40" by (simp add: d_def)
  have f: "f < 0x40" by (simp add: f_def)
  have a: "a < 5" using assms c b d f by linarith
  have lo: "a = 0 \<Longrightarrow> 0x10 \<le> b" using assms c b d f by linarith
  have hi: "a = 4 \<Longrightarrow> b < 0x10" using assms c b d f by linarith
  have ns: "\<not> (0x10FFFF < c \<or> (0xD800 \<le> c \<and> c \<le> 0xDFFF))" using assms by auto
  have e: "EncodeRune c = [0xF0 + a, 0x80 + b, 0x80 + d, 0x80 + f]"
    using assms by (auto simp add: EncodeRune_def a_def b_def d_def f_def)
  have "DecodeRune ([0xF0 + a, 0x80 + b, 0x80 + d, 0x80 + f] @ rest)
          = (a * 0x40000 + b * 0x1000 + d * 0x40 + f, 4)"
    using a b d f lo hi by (auto simp add: in_range_def m8 m64)
  then show ?thesis by (simp add: e c [symmetric])
qed

lemma decode_encoded:
  assumes "is_scalar_value c"
  shows "DecodeRune (EncodeRune c @ rest) = (c, length (EncodeRune c))"
proof -
  consider "c < 0x80" | "0x80 \<le> c" "c < 0x800" | "0x800 \<le> c" "c < 0x10000" | "0x10000 \<le> c"
    by linarith
  then show ?thesis
    using assms
    by cases (simp_all add: decode_one decode_two decode_three decode_four is_scalar_value_def)
qed

lemma div_offset: "d < n \<Longrightarrow> (q * n + d) div n = (q::nat)"
  by simp

lemma dec2:
  assumes "2 \<le> a" "a < 0x20" "b < 0x40"
  shows "DecodeRune ((0xC0 + a) # (0x80 + b) # rest) = (a * 0x40 + b, 2)"
  using assms by (simp add: in_range_def m32 m64)

lemma dec3:
  assumes "a < 0x10" "b < 0x40" "d < 0x40" "a = 0 \<Longrightarrow> 0x20 \<le> b" "a = 0xD \<Longrightarrow> b < 0x20"
  shows "DecodeRune ((0xE0 + a) # (0x80 + b) # (0x80 + d) # rest)
           = (a * 0x1000 + b * 0x40 + d, 3)"
  using assms by (auto simp add: in_range_def m16 m64)

lemma dec4:
  assumes "a < 5" "b < 0x40" "d < 0x40" "f < 0x40" "a = 0 \<Longrightarrow> 0x10 \<le> b" "a = 4 \<Longrightarrow> b < 0x10"
  shows "DecodeRune ((0xF0 + a) # (0x80 + b) # (0x80 + d) # (0x80 + f) # rest)
           = (a * 0x40000 + b * 0x1000 + d * 0x40 + f, 4)"
  using assms by (auto simp add: in_range_def m8 m64)

lemma enc2:
  assumes "2 \<le> a" "a < 0x20" "b < 0x40"
  shows "EncodeRune (a * 0x40 + b) = [0xC0 + a, 0x80 + b]"
    and "is_scalar_value (a * 0x40 + b)"
proof -
  have r: "0x80 \<le> a * 0x40 + b" "a * 0x40 + b < 0x800" using assms by linarith+
  have "(a * 0x40 + b) div 0x40 = a" "(a * 0x40 + b) mod 0x40 = b" using assms by simp_all
  with r show "EncodeRune (a * 0x40 + b) = [0xC0 + a, 0x80 + b]"
    by (simp add: EncodeRune_def)
  from r show "is_scalar_value (a * 0x40 + b)" by (simp add: is_scalar_value_def)
qed

lemma enc3:
  assumes "a < 0x10" "b < 0x40" "d < 0x40" "a = 0 \<Longrightarrow> 0x20 \<le> b" "a = 0xD \<Longrightarrow> b < 0x20"
  shows "EncodeRune (a * 0x1000 + b * 0x40 + d) = [0xE0 + a, 0x80 + b, 0x80 + d]"
    and "is_scalar_value (a * 0x1000 + b * 0x40 + d)"
proof -
  let ?r = "a * 0x1000 + b * 0x40 + d"
  have lo: "0x800 \<le> ?r" using assms by (cases "a = 0") simp_all
  have hi: "?r < 0x10000" using assms by linarith
  have ns: "\<not> (0xD800 \<le> ?r \<and> ?r \<le> 0xDFFF)"
  proof (cases "a = 0xD")
    case True with assms show ?thesis by simp
  next
    case False
    then consider "a < 0xD" | "0xD < a" by linarith
    then show ?thesis using assms by cases simp_all
  qed
  have q: "?r = (a * 0x40 + b) * 0x40 + d" by simp
  have d1: "?r div 0x40 = a * 0x40 + b" unfolding q using assms(3) by (rule div_offset)
  have d2: "?r mod 0x40 = d" unfolding q using assms(3) by (rule mod_offset)
  have d3: "?r div 0x1000 = a"
  proof -
    have "?r div 0x1000 = ?r div 0x40 div 0x40" by (simp add: div_mult2_eq [symmetric])
    also have "\<dots> = a" unfolding d1 using assms(2) by (rule div_offset)
    finally show ?thesis .
  qed
  have d4: "(?r div 0x40) mod 0x40 = b" unfolding d1 using assms(2) by (rule mod_offset)
  from lo hi ns show "EncodeRune ?r = [0xE0 + a, 0x80 + b, 0x80 + d]"
    by (simp add: EncodeRune_def d2 d3 d4)
  from hi ns show "is_scalar_value ?r" by (simp add: is_scalar_value_def)
qed

lemma enc4:
  assumes "a < 5" "b < 0x40" "d < 0x40" "f < 0x40" "a = 0 \<Longrightarrow> 0x10 \<le> b" "a = 4 \<Longrightarrow> b < 0x10"
  shows "EncodeRune (a * 0x40000 + b * 0x1000 + d * 0x40 + f)
           = [0xF0 + a, 0x80 + b, 0x80 + d, 0x80 + f]"
    and "is_scalar_value (a * 0x40000 + b * 0x1000 + d * 0x40 + f)"
proof -
  let ?r = "a * 0x40000 + b * 0x1000 + d * 0x40 + f"
  have lo: "0x10000 \<le> ?r" using assms by (cases "a = 0") simp_all
  have hi: "?r < 0x110000"
  proof (cases "a = 4")
    case True with assms show ?thesis by simp
  next
    case False with assms have "a < 4" by simp
    with assms show ?thesis by linarith
  qed
  have q: "?r = ((a * 0x40 + b) * 0x40 + d) * 0x40 + f" by simp
  have d1: "?r div 0x40 = (a * 0x40 + b) * 0x40 + d" unfolding q using assms(4) by (rule div_offset)
  have d2: "?r mod 0x40 = f" unfolding q using assms(4) by (rule mod_offset)
  have d3: "?r div 0x1000 = a * 0x40 + b"
  proof -
    have "?r div 0x1000 = ?r div 0x40 div 0x40" by (simp add: div_mult2_eq [symmetric])
    also have "\<dots> = a * 0x40 + b" unfolding d1 using assms(3) by (rule div_offset)
    finally show ?thesis .
  qed
  have d4: "?r div 0x40000 = a"
  proof -
    have "?r div 0x40000 = ?r div 0x1000 div 0x40" by (simp add: div_mult2_eq [symmetric])
    also have "\<dots> = a" unfolding d3 using assms(2) by (rule div_offset)
    finally show ?thesis .
  qed
  have d5: "(?r div 0x40) mod 0x40 = d" unfolding d1 using assms(3) by (rule mod_offset)
  have d6: "(?r div 0x1000) mod 0x40 = b" unfolding d3 using assms(2) by (rule mod_offset)
  from lo hi show "EncodeRune ?r = [0xF0 + a, 0x80 + b, 0x80 + d, 0x80 + f]"
    by (simp add: EncodeRune_def d2 d4 d5 d6)
  from lo hi show "is_scalar_value ?r" by (simp add: is_scalar_value_def)
qed

lemma decode_shape:
  "DecodeRune (s0 # rest) = (RuneError, 1)
   \<or> s0 < 0x80
   \<or> (\<exists>a b rest'. 2 \<le> a \<and> a < 0x20 \<and> b < 0x40 \<and> s0 = 0xC0 + a \<and> rest = (0x80 + b) # rest')
   \<or> (\<exists>a b d rest'. a < 0x10 \<and> b < 0x40 \<and> d < 0x40 \<and> (a = 0 \<longrightarrow> 0x20 \<le> b)
         \<and> (a = 0xD \<longrightarrow> b < 0x20) \<and> s0 = 0xE0 + a
         \<and> rest = (0x80 + b) # (0x80 + d) # rest')
   \<or> (\<exists>a b d f rest'. a < 5 \<and> b < 0x40 \<and> d < 0x40 \<and> f < 0x40 \<and> (a = 0 \<longrightarrow> 0x10 \<le> b)
         \<and> (a = 4 \<longrightarrow> b < 0x10) \<and> s0 = 0xF0 + a
         \<and> rest = (0x80 + b) # (0x80 + d) # (0x80 + f) # rest')"
proof -
  have byte: "\<exists>b. b < 0x40 \<and> x = 0x80 + b" if "in_range 0x80 0xBF x" for x
    using that by (intro exI [where x = "x - 0x80"]) (auto simp add: in_range_def)
  consider (ascii) "s0 < 0x80" | (bad) "0x80 \<le> s0" "s0 < 0xC2 \<or> 0xF4 < s0"
    | (two) "0xC2 \<le> s0" "s0 < 0xE0" | (three) "0xE0 \<le> s0" "s0 < 0xF0"
    | (four) "0xF0 \<le> s0" "s0 \<le> 0xF4" by linarith
  then show ?thesis
  proof cases
    case ascii then show ?thesis by simp
  next
    case bad then show ?thesis by auto
  next
    case two
    define a where "a = s0 - 0xC0"
    have a: "2 \<le> a" "a < 0x20" "s0 = 0xC0 + a" using two by (simp_all add: a_def)
    show ?thesis
    proof (cases rest)
      case Nil with two show ?thesis by simp
    next
      case (Cons b1 rest')
      show ?thesis
      proof (cases "in_range 0x80 0xBF b1")
        case True
        from byte [OF True] obtain b where "b < 0x40" "b1 = 0x80 + b" by blast
        with a Cons show ?thesis by blast
      next
        case False with two Cons show ?thesis by simp
      qed
    qed
  next
    case three
    define a where "a = s0 - 0xE0"
    have a: "a < 0x10" "s0 = 0xE0 + a" using three by (simp_all add: a_def)
    let ?lo = "if s0 = 0xE0 then 0xA0 else (0x80::nat)"
    let ?hi = "if s0 = 0xED then 0x9F else (0xBF::nat)"
    have fail: "DecodeRune (s0 # rest) = (RuneError, 1)"
      if "length rest < 2 \<or> \<not> in_range ?lo ?hi (rest ! 0) \<or> \<not> in_range 0x80 0xBF (rest ! 1)"
      using that three by (auto simp add: Let_def)
    show ?thesis
    proof (cases "length rest < 2 \<or> \<not> in_range ?lo ?hi (rest ! 0) \<or> \<not> in_range 0x80 0xBF (rest ! 1)")
      case True with fail show ?thesis by simp
    next
      case False
      then obtain b1 b2 rest' where rest: "rest = b1 # b2 # rest'"
        by (cases rest; cases "tl rest") auto
      with False have r1: "in_range ?lo ?hi b1" and r2: "in_range 0x80 0xBF b2" by simp_all
      from r1 have "in_range 0x80 0xBF b1" by (auto simp add: in_range_def split: if_splits)
      from byte [OF this] obtain b where b: "b < 0x40" "b1 = 0x80 + b" by blast
      from byte [OF r2] obtain d where d: "d < 0x40" "b2 = 0x80 + d" by blast
      have lo: "a = 0 \<longrightarrow> 0x20 \<le> b" using r1 a b by (auto simp add: in_range_def)
      have hi: "a = 0xD \<longrightarrow> b < 0x20" using r1 a b by (auto simp add: in_range_def)
      from a b d lo hi rest show ?thesis by blast
    qed
  next
    case four
    define a where "a = s0 - 0xF0"
    have a: "a < 5" "s0 = 0xF0 + a" using four by (simp_all add: a_def)
    let ?lo = "if s0 = 0xF0 then 0x90 else (0x80::nat)"
    let ?hi = "if s0 = 0xF4 then 0x8F else (0xBF::nat)"
    have fail: "DecodeRune (s0 # rest) = (RuneError, 1)"
      if "length rest < 3 \<or> \<not> in_range ?lo ?hi (rest ! 0) \<or> \<not> in_range 0x80 0xBF (rest ! 1)
          \<or> \<not> in_range 0x80 0xBF (rest ! 2)"
      using that four by (auto simp add: Let_def)
    show ?thesis
    proof (cases "length rest < 3 \<or> \<not> in_range ?lo ?hi (rest ! 0) \<or> \<not> in_range 0x80 0xBF (rest ! 1)
          \<or> \<not> in_range 0x80 0xBF (rest ! 2)")
      case True with fail show ?thesis by simp
    next
      case False
      then obtain b1 b2 b3 rest' where rest: "rest = b1 # b2 # b3 # rest'"
        by (cases rest; cases "tl rest"; cases "tl (tl rest)") auto
      with False have r1: "in_range ?lo ?hi b1" and r2: "in_range 0x80 0xBF b2"
        and r3: "in_range 0x80 0xBF b3" by simp_all
      from r1 have "in_range 0x80 0xBF b1" by (auto simp add: in_range_def split: if_splits)
      from byte [OF this] obtain b where b: "b < 0x40" "b1 = 0x80 + b" by blast
      from byte [OF r2] obtain d where d: "d < 0x40" "b2 = 0x80 + d" by blast
      from byte [OF r3] obtain f where f: "f < 0x40" "b3 = 0x80 + f" by blast
      have lo: "a = 0 \<longrightarrow> 0x10 \<le> b" using r1 a b by (auto simp add: in_range_def)
      have hi: "a = 4 \<longrightarrow> b < 0x10" using r1 a b by (auto simp add: in_range_def)
      from a b d f lo hi rest show ?thesis by blast
    qed
  qed
qed

lemma decode_sound:
  assumes "DecodeRune (s0 # rest) = (r, w)"
  shows "(r = RuneError \<and> w = 1)
       \<or> (is_scalar_value r \<and> 0 < w \<and> w \<le> length (s0 # rest)
           \<and> take w (s0 # rest) = EncodeRune r)"
  using decode_shape [of s0 rest]
proof (elim disjE exE conjE)
  assume "DecodeRune (s0 # rest) = (RuneError, 1)"
  with assms show ?thesis by simp
next
  assume "s0 < 0x80"
  with assms show ?thesis by (auto simp add: EncodeRune_def is_scalar_value_def)
next
  fix a b rest'
  assume h: "2 \<le> a" "a < 0x20" "b < 0x40" "s0 = 0xC0 + a" "rest = (0x80 + b) # rest'"
  from assms h dec2 [OF h(1-3), of rest'] have "r = a * 0x40 + b" "w = 2" by simp_all
  with h enc2 [OF h(1-3)] show ?thesis by simp
next
  fix a b d rest'
  assume h: "a < 0x10" "b < 0x40" "d < 0x40" "a = 0 \<longrightarrow> 0x20 \<le> b" "a = 0xD \<longrightarrow> b < 0x20"
    "s0 = 0xE0 + a" "rest = (0x80 + b) # (0x80 + d) # rest'"
  from h(4,5) have c: "a = 0 \<Longrightarrow> 0x20 \<le> b" "a = 0xD \<Longrightarrow> b < 0x20" by simp_all
  from assms h dec3 [OF h(1-3) c, of rest'] have "r = a * 0x1000 + b * 0x40 + d" "w = 3"
    by simp_all
  with h enc3 [OF h(1-3) c] show ?thesis by simp
next
  fix a b d f rest'
  assume h: "a < 5" "b < 0x40" "d < 0x40" "f < 0x40" "a = 0 \<longrightarrow> 0x10 \<le> b" "a = 4 \<longrightarrow> b < 0x10"
    "s0 = 0xF0 + a" "rest = (0x80 + b) # (0x80 + d) # (0x80 + f) # rest'"
  from h(5,6) have c: "a = 0 \<Longrightarrow> 0x10 \<le> b" "a = 4 \<Longrightarrow> b < 0x10" by simp_all
  from assms h dec4 [OF h(1-4) c, of rest']
  have "r = a * 0x40000 + b * 0x1000 + d * 0x40 + f" "w = 4" by simp_all
  with h enc4 [OF h(1-4) c] show ?thesis by simp
qed

lemma EncodeRune_bytes: "\<forall>b\<in>set (EncodeRune r). b < 256"
proof -
  have 2: "r div 0x40 < 0x20" if "r < 0x800" using that by (simp add: div_less_iff_less_mult)
  have 3: "r div 0x1000 < 0x10" if "r < 0x10000" using that by (simp add: div_less_iff_less_mult)
  have 4: "r div 0x40000 < 5" if "r < 0x110000" using that by (simp add: div_less_iff_less_mult)
  have m: "x mod 0x40 < (0x40::nat)" for x by simp
  show ?thesis
    unfolding EncodeRune_def
    using 2 3 4 m [of r] m [of "r div 0x40"] m [of "r div 0x1000"]
    by (auto simp del: mod_less_divisor)
qed

lemma EncodeRune_not_Nil: "EncodeRune r \<noteq> []"
  by (simp add: EncodeRune_def)

lemma bytes_string_of_rune: "map of_char (string_of_rune r) = EncodeRune r"
proof -
  have "map of_char (map char_of bs) = bs" if "\<forall>b\<in>set bs. b < 256" for bs :: "nat list"
    using that by (induction bs) simp_all
  with EncodeRune_bytes show ?thesis by (simp add: string_of_rune_def)
qed

lemma string_of_bytes: "map char_of (map (of_char :: char \<Rightarrow> nat) s) = s"
  by (induction s) simp_all

lemma runes_encoded:
  assumes "is_scalar_value c"
  shows "runes (string_of_rune c @ rest) = c # runes rest"
proof -
  obtain e es where e: "EncodeRune c = e # es"
    using EncodeRune_not_Nil [of c] by (cases "EncodeRune c") simp_all
  have "DecodeRune (e # es @ map of_char rest) = (c, Suc (length es))"
    using decode_encoded [OF assms, of "map of_char rest"] by (simp add: e)
  then show ?thesis by (simp add: runes_def bytes_string_of_rune e del: DecodeRune.simps)
qed

lemma runes_stray:
  assumes "\<forall>c tail. is_scalar_value c \<longrightarrow> b # rest \<noteq> string_of_rune c @ tail"
  shows "runes (b # rest) = RuneError # runes rest"
proof -
  obtain r w where d: "DecodeRune (of_char b # map of_char rest) = (r, w)"
    by (cases "DecodeRune (of_char b # map of_char rest)")
  have "r = RuneError \<and> w = 1"
  proof (rule ccontr)
    assume n: "\<not> (r = RuneError \<and> w = 1)"
    with decode_sound [OF d] have s: "is_scalar_value r"
      and t: "take w (of_char b # map of_char rest) = EncodeRune r" by blast+
    from t have t': "take w (map of_char (b # rest)) = EncodeRune r" by simp
    have "map char_of (take w (map (of_char :: char \<Rightarrow> nat) (b # rest))) = take w (b # rest)"
      by (simp only: take_map string_of_bytes)
    then have "take w (b # rest) = string_of_rune r"
      by (simp only: t' string_of_rune_def)
    then have "b # rest = string_of_rune r @ drop w (b # rest)"
      by (metis append_take_drop_id)
    with assms s show False by blast
  qed
  with d show ?thesis by (simp add: runes_def del: DecodeRune.simps)
qed

lemma characters_runes: "characters content cs \<Longrightarrow> runes content = cs"
proof (induction rule: characters.induct)
  case none
  show ?case by (simp add: runes_def)
next
  case (encoded c rest cs)
  then show ?case by (simp only: runes_encoded)
next
  case (stray b rest cs)
  then show ?case by (simp only: runes_stray)
qed

lemma runes_characters: "characters content (runes content)"
proof (induction content rule: length_induct)
  case (1 content)
  show ?case
  proof (cases content)
    case Nil then show ?thesis by (simp add: runes_def characters.none)
  next
    case (Cons b rest)
    show ?thesis
    proof (cases "\<exists>c tail. is_scalar_value c \<and> b # rest = string_of_rune c @ tail")
      case True
      then obtain c tail where c: "is_scalar_value c" "b # rest = string_of_rune c @ tail"
        by blast
      have "string_of_rune c \<noteq> []" by (simp add: string_of_rune_def EncodeRune_not_Nil)
      with c(2) Cons have "length tail < length content"
        by (metis length_append length_greater_0_conv less_add_same_cancel2)
      with 1 have "characters tail (runes tail)" by blast
      with c(1) have "characters (string_of_rune c @ tail) (c # runes tail)"
        by (rule characters.encoded)
      with c Cons show ?thesis by (simp add: runes_encoded)
    next
      case False
      then have n: "\<forall>c tail. is_scalar_value c \<longrightarrow> b # rest \<noteq> string_of_rune c @ tail" by blast
      from 1 Cons have "characters rest (runes rest)" by simp
      with n have "characters (b # rest) (RuneError # runes rest)" by (rule characters.stray)
      with n Cons show ?thesis by (simp add: runes_stray)
    qed
  qed
qed

lemma characters_iff: "characters content cs \<longleftrightarrow> cs = runes content"
  using characters_runes runes_characters by blast

section \<open>Typing text\<close>









section \<open>Synonyms\<close>

text \<open>
  C10: \<open>Enter\<close> does what \<open>Confirm\<close> does and \<open>ContinueRebase\<close> does what
  \<open>ContinueMerge\<close> does, on every input facade and in every world: the same outcome, the
  same application state and the same trace.
\<close>

theorem Enter_is_Confirm_ContinueRebase_is_ContinueMerge:
  "Enter self w = Confirm self w \<and> ContinueRebase self w = ContinueMerge self w"
  by (simp add: Enter_def Confirm_def ContinueRebase_def)

section \<open>The check of one navigation attempt\<close>

lemma fst_scan_lines:
  "fst (scan_lines m ls i (matches, matchIndex)) = matches @ matching_lines m ls"
  by (induction ls arbitrary: i matches matchIndex) (simp_all add: matching_lines_def)

lemma verdict_none:
  "matching_lines m ls = [] \<Longrightarrow>
     fst (list_item_verdict m ls) = (False, ''Could not find item matching: '' @ name m)"
  using fst_scan_lines [of m ls 0 "[]" "- 1"]
  by (cases "scan_lines m ls 0 ([], - 1)") (simp add: list_item_verdict_def)

lemma verdict_many:
  "2 \<le> length (matching_lines m ls) \<Longrightarrow>
     fst (list_item_verdict m ls) =
       (False, ''Found '' @ Sprintf_d (int (length (matching_lines m ls))) @ '' matches for `''
                 @ name m @ ''`, expected only a single match. Lines:'' @ [CHR 0x0A]
                 @ Join (matching_lines m ls) [CHR 0x0A])"
  using fst_scan_lines [of m ls 0 "[]" "- 1"]
  by (cases "scan_lines m ls 0 ([], - 1)") (simp add: list_item_verdict_def)

text \<open>
  C3: when two or more of the lines that an attempt reads satisfy the matcher, the check
  of the attempt fails, and its reason gives the number of matching lines, the name of
  the matcher and the matching lines, one per line; it is not the reason of an attempt
  that finds no matching line.
\<close>

theorem several_matches_rejected:
  assumes "ViewBufferLines (gui self) view (app w) = (ls, g)"
    and "2 \<le> length (matching_lines m ls)"
  shows "fst (fst (list_item_check self view m w)) =
           (False, ''Found '' @ Sprintf_d (int (length (matching_lines m ls))) @ '' matches for `''
                     @ name m @ ''`, expected only a single match. Lines:'' @ [CHR 0x0A]
                     @ Join (matching_lines m ls) [CHR 0x0A])
         \<and> snd (fst (fst (list_item_check self view m w)))
             \<noteq> ''Could not find item matching: '' @ name m"
  using assms by (simp add: list_item_check_def verdict_many)

theorem several_matches_rejected_witness:
  "matching_lines (Contains ''commit 0'') commits = commits \<and>
   fst (fst (list_item_check example_input ''commits'' (Contains ''commit 0'') (commits_world 0))) =
     (False, ''Found 5 matches for `contains commit 0`, expected only a single match. Lines:''
               @ [CHR 0x0A] @ ''commit 05'' @ [CHR 0x0A] @ ''commit 04'' @ [CHR 0x0A]
               @ ''commit 03'' @ [CHR 0x0A] @ ''commit 02'' @ [CHR 0x0A] @ ''commit 01'')"
proof -
  have lines: "ViewBufferLines (gui example_input) ''commits'' (app (commits_world 0))
                 = (commits, app (commits_world 0))"
    by (simp add: example_input_def NewInput_def list_view_def commits_world_def)
  have all: "matching_lines (Contains ''commit 0'') commits = commits"
    by (simp add: matching_lines_def Contains_def commits_def)
  have many: "2 \<le> length (matching_lines (Contains ''commit 0'') commits)"
    by (simp add: all) (simp add: commits_def)
  have five: "Sprintf_d (int (length commits)) = ''5''"
    by (simp add: Sprintf_d_def commits_def decimal.simps char_of_def bit_Suc_0_iff)
  show ?thesis
    using several_matches_rejected [OF lines many] all five
    by (simp add: Contains_def) (simp add: commits_def)
qed

text \<open>
  C4: when none of the lines that an attempt reads satisfies the matcher, the check of
  the attempt fails with the reason "Could not find item matching:" followed by the name
  of the matcher.
\<close>

theorem no_match_rejected:
  assumes "ViewBufferLines (gui self) view (app w) = (ls, g)"
    and "matching_lines m ls = []"
  shows "fst (fst (list_item_check self view m w))
           = (False, ''Could not find item matching: '' @ name m)"
  using assms by (simp add: list_item_check_def verdict_none)

theorem no_match_rejected_witness:
  "matching_lines (Contains ''commit 7'') commits = [] \<and>
   fst (fst (list_item_check example_input ''commits'' (Contains ''commit 7'') (commits_world 0))) =
     (False, ''Could not find item matching: contains commit 7'')"
proof -
  have lines: "ViewBufferLines (gui example_input) ''commits'' (app (commits_world 0))
                 = (commits, app (commits_world 0))"
    by (simp add: example_input_def NewInput_def list_view_def commits_world_def)
  have none: "matching_lines (Contains ''commit 7'') commits = []"
    by (simp add: matching_lines_def Contains_def commits_def)
  show ?thesis
    using no_match_rejected [OF lines none] none by (simp add: Contains_def)
qed

section \<open>The settle delay\<close>

lemma dbep_append:
  assumes "delay_before_each_press d xs" "delay_before_each_press d ys"
  shows "delay_before_each_press d (xs @ ys)"
  unfolding delay_before_each_press_def
proof (intro allI impI)
  fix i assume i: "i < length (xs @ ys)" and p: "is_press ((xs @ ys) ! i)"
  show "0 < i \<and> (xs @ ys) ! (i - 1) = Slept d"
  proof (cases "i < length xs")
    case True
    with p assms(1) have "0 < i \<and> xs ! (i - 1) = Slept d"
      by (simp add: delay_before_each_press_def nth_append)
    with True show ?thesis by (auto simp add: nth_append)
  next
    case False
    define j where "j = i - length xs"
    from False i have j: "j < length ys" "i = length xs + j" by (simp_all add: j_def)
    with p have "is_press (ys ! j)" by (simp add: nth_append)
    with assms(2) j have 0: "0 < j \<and> ys ! (j - 1) = Slept d"
      by (simp add: delay_before_each_press_def)
    with j have "i - 1 = length xs + (j - 1)" by simp
    then have "(xs @ ys) ! (i - 1) = ys ! (j - 1)" by (simp only: nth_append_length_plus)
    with 0 j show ?thesis by simp
  qed
qed

lemma dbep_Nil: "delay_before_each_press d []"
  by (simp add: delay_before_each_press_def)

lemma dbep_single: "\<not> is_press e \<Longrightarrow> delay_before_each_press d [e]"
  by (simp add: delay_before_each_press_def)

lemma dbep_press: "delay_before_each_press d [Slept d, PressedKey k]"
  by (simp add: delay_before_each_press_def less_Suc_eq)

lemma pacedI:
  "trace w' = trace w @ es \<Longrightarrow> delay_before_each_press d es \<Longrightarrow> paced d w w'"
  by (simp add: paced_def since_def)

lemma paced_refl: "paced d w w"
  by (rule pacedI [where es = "[]"]) (simp_all add: dbep_Nil)

lemma paced_trans: "paced d w w1 \<Longrightarrow> paced d w1 w2 \<Longrightarrow> paced d w w2"
proof -
  assume a: "paced d w w1" and b: "paced d w1 w2"
  from a b have "trace w2 = trace w @ (since w w1 @ since w1 w2)"
    by (simp add: paced_def)
  moreover from a b have "delay_before_each_press d (since w w1 @ since w1 w2)"
    by (simp add: paced_def dbep_append)
  ultimately show ?thesis by (rule pacedI)
qed

lemma paced_Wait: "paced d w (Wait self ms w)"
  by (rule pacedI [where es = "[Slept (nanoseconds ms)]"]) (simp_all add: trace_Wait dbep_single)

lemma paced_press: "paced (nanoseconds (pushKeyDelay self)) w (press self k w)"
  by (rule pacedI [where es = "[Slept (nanoseconds (pushKeyDelay self)), PressedKey k]"])
    (simp_all add: trace_press dbep_press)

lemma paced_fold:
  "(\<And>x w. paced d w (f x w)) \<Longrightarrow> paced d w (fold f xs w)"
proof (induction xs arbitrary: w)
  case Nil show ?case by (simp add: paced_refl)
next
  case (Cons x xs)
  have "paced d w (f x w)" by (rule Cons.prems)
  moreover have "paced d (f x w) (fold f xs (f x w))" by (rule Cons.IH) (rule Cons.prems)
  ultimately show ?case by (simp add: paced_trans)
qed

lemma paced_event:
  "\<not> is_press e \<Longrightarrow> paced d w (w\<lparr>app := g, trace := trace w @ [e]\<rparr>)"
  by (rule pacedI [where es = "[e]"]) (simp_all add: dbep_single)

lemma paced_retrying:
  assumes "\<And>w. paced d w (snd (chk w))"
  shows "paced d w (snd (retrying self chk n msg w))"
proof (induction n arbitrary: msg w)
  case 0 show ?case by (simp add: paced_refl)
next
  case (Suc n)
  obtain ok reason c w1 where c: "chk w = (((ok, reason), c), w1)"
    by (metis surj_pair)
  from assms [of w] c have 1: "paced d w w1" by simp
  show ?case
  proof (cases ok)
    case True with c 1 show ?thesis by simp
  next
    case False
    have "paced d w1 (Wait self (retryDelay (assert self)) w1)" by (rule paced_Wait)
    with 1 have "paced d w (Wait self (retryDelay (assert self)) w1)" by (rule paced_trans)
    moreover have "paced d (Wait self (retryDelay (assert self)) w1)
      (snd (retrying self chk n reason (Wait self (retryDelay (assert self)) w1)))" by (rule Suc.IH)
    ultimately show ?thesis using c False by (simp add: paced_trans)
  qed
qed

lemma paced_assertWithRetries:
  "(\<And>w. paced d w (snd (chk w))) \<Longrightarrow> paced d w (snd (assertWithRetries self chk w))"
  by (simp add: assertWithRetries_def paced_retrying)

lemma paced_attempt: "paced d w (snd (attempt self a w))"
  by (simp add: attempt_def paced_event split: prod.splits)

lemma paced_asserts: "paced d w (snd (asserts self a w))"
proof (cases "immediate (assert self) a")
  case True
  with paced_attempt [of d w self a] show ?thesis
    by (cases "attempt self a w") (auto simp add: asserts_def)
next
  case False
  then show ?thesis
    by (simp add: asserts_def paced_assertWithRetries paced_attempt)
qed

lemma paced_andThen:
  assumes "paced d w (snd r)" "\<And>a w1. paced d w1 (snd (f a w1))"
  shows "paced d w (snd (andThen r f))"
proof (cases r)
  case (Pair x w1)
  show ?thesis
  proof (cases x)
    case (Inl e) with Pair assms(1) show ?thesis by (simp add: andThen_def)
  next
    case (Inr a)
    with Pair assms(1) assms(2) [of w1 a] show ?thesis
      by (simp add: andThen_def) (rule paced_trans)
  qed
qed

lemma paced_list_item_check: "paced d w (snd (list_item_check self view m w))"
  by (simp add: list_item_check_def paced_event split: prod.splits)

lemma paced_next_items:
  "paced (nanoseconds (pushKeyDelay self)) w (next_items self i mi w)"
proof (induction self i mi w rule: next_items.induct)
  case (1 self i matchIndex w)
  show ?case
  proof (cases "i < matchIndex")
    case True
    have "paced (nanoseconds (pushKeyDelay self)) w (NextItem self w)"
      by (simp add: NextItem_def paced_press)
    with 1 [OF True] True show ?thesis
      by (subst next_items.simps) (simp add: paced_trans)
  next
    case False then show ?thesis by (subst next_items.simps) (simp add: paced_refl)
  qed
qed

lemma paced_previous_items:
  "paced (nanoseconds (pushKeyDelay self)) w (previous_items self i mi w)"
proof (induction self i mi w rule: previous_items.induct)
  case (1 self i matchIndex w)
  show ?case
  proof (cases "i > matchIndex")
    case True
    have "paced (nanoseconds (pushKeyDelay self)) w (PreviousItem self w)"
      by (simp add: PreviousItem_def paced_press)
    with 1 [OF True] True show ?thesis
      by (subst previous_items.simps) (simp add: paced_trans)
  next
    case False then show ?thesis by (subst previous_items.simps) (simp add: paced_refl)
  qed
qed

lemma paced_then_asserts:
  "paced d w w1 \<Longrightarrow> paced d w (snd (asserts self a w1))"
  by (rule paced_trans [OF _ paced_asserts])

lemma paced_move_selection:
  "paced (nanoseconds (pushKeyDelay self)) w (snd (move_selection self m view mi w))"
proof -
  obtain s g where r: "SelectedLineIdx (gui self) view (app w) = (s, g)"
    by (cases "SelectedLineIdx (gui self) view (app w)")
  define w1 where "w1 = w\<lparr>app := g, trace := trace w @ [GotSelectedLineIdx s]\<rparr>"
  have 1: "paced (nanoseconds (pushKeyDelay self)) w w1"
    unfolding w1_def by (rule paced_event) simp
  have 2: "paced (nanoseconds (pushKeyDelay self)) w (next_items self s mi w1)"
    by (rule paced_trans [OF 1 paced_next_items])
  have 3: "paced (nanoseconds (pushKeyDelay self)) w (previous_items self s mi w1)"
    by (rule paced_trans [OF 1 paced_previous_items])
  show ?thesis
    using r 1 2 3 unfolding w1_def
    by (auto simp add: move_selection_def Let_def paced_then_asserts)
qed

lemma paced_NavigateToListItem:
  "paced (nanoseconds (pushKeyDelay self)) w (snd (NavigateToListItem self m w))"
  unfolding NavigateToListItem_def
proof (rule paced_andThen [OF paced_asserts])
  fix u :: unit and w1 :: "'a world"
  obtain c g where r: "CurrentContext (gui self) (app w1) = (c, g)"
    by (cases "CurrentContext (gui self) (app w1)")
  define w2 where "w2 = w1\<lparr>app := g, trace := trace w1 @ [GotCurrentContext c]\<rparr>"
  have 1: "paced (nanoseconds (pushKeyDelay self)) w1 w2"
    unfolding w2_def by (rule paced_event) simp
  have 2: "paced (nanoseconds (pushKeyDelay self)) w2
             (snd (andThen (assertWithRetries self (list_item_check self view m) w2)
                     (move_selection self m view)))" for view
    by (rule paced_andThen [OF paced_assertWithRetries])
      (rule paced_list_item_check, rule paced_move_selection)
  show "paced (nanoseconds (pushKeyDelay self)) w1
     (snd (case CurrentContext (gui self) (app w1) of
        (currentContext, g) \<Rightarrow>
          let w2 = w1\<lparr>app := g, trace := trace w1 @ [GotCurrentContext currentContext]\<rparr> in
          (case currentContext of
             OtherContext _ \<Rightarrow> (Inl InterfaceConversion, w2)
           | IListContext view \<Rightarrow>
               andThen (assertWithRetries self (list_item_check self view m) w2)
                 (move_selection self m view))))"
    using r 1 paced_trans [OF 1 2] unfolding w2_def
    by (cases c) (simp_all add: Let_def)
qed

lemma paced_switch:
  "paced (nanoseconds (pushKeyDelay self)) w
     (snd (case index ks i of Inl e \<Rightarrow> (Inl e, w)
           | Inr keyStr \<Rightarrow> asserts self a (press self keyStr w)))"
  by (cases "index ks i") (simp_all add: paced_refl paced_then_asserts paced_press)

lemma paced_Press: "paced (nanoseconds (pushKeyDelay self)) w (Press self keyStrs w)"
  unfolding Press_def by (rule paced_fold) (rule paced_press)

lemma paced_Type: "paced (nanoseconds (pushKeyDelay self)) w (Type self content w)"
  unfolding Type_def by (rule paced_fold) (rule paced_press)

lemma paced_Confirm: "paced (nanoseconds (pushKeyDelay self)) w (Confirm self w)"
  by (simp add: Confirm_def paced_press)

lemma paced_Cancel: "paced (nanoseconds (pushKeyDelay self)) w (Cancel self w)"
  by (simp add: Cancel_def paced_press)

lemma paced_ContinueMerge: "paced (nanoseconds (pushKeyDelay self)) w (snd (ContinueMerge self w))"
  unfolding ContinueMerge_def
  by (rule paced_andThen [OF paced_then_asserts [OF paced_Press]]) (simp add: paced_Confirm)

lemma paced_AcceptConfirmation:
  "paced (nanoseconds (pushKeyDelay self)) w (snd (AcceptConfirmation self title content w))"
  unfolding AcceptConfirmation_def
  by (intro paced_andThen paced_asserts) (simp add: paced_Confirm)

lemma paced_DenyConfirmation:
  "paced (nanoseconds (pushKeyDelay self)) w (snd (DenyConfirmation self title content w))"
  unfolding DenyConfirmation_def
  by (intro paced_andThen paced_asserts) (simp add: paced_Cancel)

lemma paced_Prompt:
  "paced (nanoseconds (pushKeyDelay self)) w (snd (Prompt self title textToType w))"
  unfolding Prompt_def
  by (intro paced_andThen paced_asserts)
    (simp add: paced_trans [OF paced_Type paced_Confirm])

lemma paced_Typeahead:
  "paced (nanoseconds (pushKeyDelay self)) w (snd (Typeahead self title textToType expectedFirstOption w))"
  unfolding Typeahead_def
  by (intro paced_andThen paced_asserts paced_then_asserts [OF paced_trans [OF paced_Type paced_Press]])
    (simp add: paced_Confirm)

lemma paced_Menu:
  "paced (nanoseconds (pushKeyDelay self)) w (snd (Menu self title optionToSelect w))"
  unfolding Menu_def
  by (intro paced_andThen paced_asserts paced_NavigateToListItem) (simp add: paced_Confirm)

lemma paced_Alert:
  "paced (nanoseconds (pushKeyDelay self)) w (snd (Alert self title content w))"
  unfolding Alert_def
  by (intro paced_andThen paced_asserts) (simp add: paced_Confirm)

lemma every_press_after_Sleep:
  "paced (nanoseconds (pushKeyDelay self)) w (Press self keyStrs w)
   \<and> paced (nanoseconds (pushKeyDelay self)) w (Type self typed w)
   \<and> paced (nanoseconds (pushKeyDelay self)) w (Confirm self w)
   \<and> paced (nanoseconds (pushKeyDelay self)) w (Enter self w)
   \<and> paced (nanoseconds (pushKeyDelay self)) w (Cancel self w)
   \<and> paced (nanoseconds (pushKeyDelay self)) w (PrimaryAction self w)
   \<and> paced (nanoseconds (pushKeyDelay self)) w (NextItem self w)
   \<and> paced (nanoseconds (pushKeyDelay self)) w (PreviousItem self w)
   \<and> paced (nanoseconds (pushKeyDelay self)) w (snd (SwitchToStatusWindow self w))
   \<and> paced (nanoseconds (pushKeyDelay self)) w (snd (SwitchToFilesWindow self w))
   \<and> paced (nanoseconds (pushKeyDelay self)) w (snd (SwitchToBranchesWindow self w))
   \<and> paced (nanoseconds (pushKeyDelay self)) w (snd (SwitchToCommitsWindow self w))
   \<and> paced (nanoseconds (pushKeyDelay self)) w (snd (SwitchToStashWindow self w))
   \<and> paced (nanoseconds (pushKeyDelay self)) w (snd (ContinueMerge self w))
   \<and> paced (nanoseconds (pushKeyDelay self)) w (snd (ContinueRebase self w))
   \<and> paced (nanoseconds (pushKeyDelay self)) w (snd (NavigateToListItem self m w))
   \<and> paced (nanoseconds (pushKeyDelay self)) w (snd (AcceptConfirmation self title content w))
   \<and> paced (nanoseconds (pushKeyDelay self)) w (snd (DenyConfirmation self title content w))
   \<and> paced (nanoseconds (pushKeyDelay self)) w (snd (Prompt self title textToType w))
   \<and> paced (nanoseconds (pushKeyDelay self)) w (snd (Typeahead self title textToType expectedFirstOption w))
   \<and> paced (nanoseconds (pushKeyDelay self)) w (snd (Menu self title optionToSelect w))
   \<and> paced (nanoseconds (pushKeyDelay self)) w (snd (Alert self title content w))"
proof -
  have simple:
    "paced (nanoseconds (pushKeyDelay self)) w (Enter self w)"
    "paced (nanoseconds (pushKeyDelay self)) w (PrimaryAction self w)"
    "paced (nanoseconds (pushKeyDelay self)) w (NextItem self w)"
    "paced (nanoseconds (pushKeyDelay self)) w (PreviousItem self w)"
    by (simp_all add: Enter_def PrimaryAction_def NextItem_def PreviousItem_def paced_press)
  have switches:
    "paced (nanoseconds (pushKeyDelay self)) w (snd (SwitchToStatusWindow self w))"
    "paced (nanoseconds (pushKeyDelay self)) w (snd (SwitchToFilesWindow self w))"
    "paced (nanoseconds (pushKeyDelay self)) w (snd (SwitchToBranchesWindow self w))"
    "paced (nanoseconds (pushKeyDelay self)) w (snd (SwitchToCommitsWindow self w))"
    "paced (nanoseconds (pushKeyDelay self)) w (snd (SwitchToStashWindow self w))"
    unfolding SwitchToStatusWindow_def SwitchToFilesWindow_def SwitchToBranchesWindow_def
      SwitchToCommitsWindow_def SwitchToStashWindow_def
    by (rule paced_switch)+
  have rebase: "paced (nanoseconds (pushKeyDelay self)) w (snd (ContinueRebase self w))"
    by (simp add: ContinueRebase_def paced_ContinueMerge)
  show ?thesis
    by (intro conjI simple switches rebase paced_Press paced_Type paced_Confirm paced_Cancel
        paced_ContinueMerge paced_NavigateToListItem paced_AcceptConfirmation
        paced_DenyConfirmation paced_Prompt paced_Typeahead paced_Menu paced_Alert)
qed


text \<open>
  C6, amended: when the duration of the configured settle delay fits the 64-bit count of
  nanoseconds (the delay is between -9223372036854 and 9223372036854 milliseconds), then
  in every operation of the input facade every key press that reaches the UI driver comes
  right after a sleep of the configured settle delay: the event before a \<open>PressedKey\<close>
  is \<open>Slept (pushKeyDelay self * 1000000)\<close>. It holds whether the operation succeeds or
  stops at a failure.
\<close>

theorem settle_delay_before_every_press:
  assumes "- 9223372036854 \<le> pushKeyDelay self" and "pushKeyDelay self \<le> 9223372036854"
  shows "paced (pushKeyDelay self * 1000000) w (Press self keyStrs w)
   \<and> paced (pushKeyDelay self * 1000000) w (Type self typed w)
   \<and> paced (pushKeyDelay self * 1000000) w (Confirm self w)
   \<and> paced (pushKeyDelay self * 1000000) w (Enter self w)
   \<and> paced (pushKeyDelay self * 1000000) w (Cancel self w)
   \<and> paced (pushKeyDelay self * 1000000) w (PrimaryAction self w)
   \<and> paced (pushKeyDelay self * 1000000) w (NextItem self w)
   \<and> paced (pushKeyDelay self * 1000000) w (PreviousItem self w)
   \<and> paced (pushKeyDelay self * 1000000) w (snd (SwitchToStatusWindow self w))
   \<and> paced (pushKeyDelay self * 1000000) w (snd (SwitchToFilesWindow self w))
   \<and> paced (pushKeyDelay self * 1000000) w (snd (SwitchToBranchesWindow self w))
   \<and> paced (pushKeyDelay self * 1000000) w (snd (SwitchToCommitsWindow self w))
   \<and> paced (pushKeyDelay self * 1000000) w (snd (SwitchToStashWindow self w))
   \<and> paced (pushKeyDelay self * 1000000) w (snd (ContinueMerge self w))
   \<and> paced (pushKeyDelay self * 1000000) w (snd (ContinueRebase self w))
   \<and> paced (pushKeyDelay self * 1000000) w (snd (NavigateToListItem self m w))
   \<and> paced (pushKeyDelay self * 1000000) w (snd (AcceptConfirmation self title content w))
   \<and> paced (pushKeyDelay self * 1000000) w (snd (DenyConfirmation self title content w))
   \<and> paced (pushKeyDelay self * 1000000) w (snd (Prompt self title textToType w))
   \<and> paced (pushKeyDelay self * 1000000) w (snd (Typeahead self title textToType expectedFirstOption w))
   \<and> paced (pushKeyDelay self * 1000000) w (snd (Menu self title optionToSelect w))
   \<and> paced (pushKeyDelay self * 1000000) w (snd (Alert self title content w))"
  using every_press_after_Sleep [where self = self and w = w]
  by (simp add: nanoseconds_in_range [OF assms])

lemma asserts_pass:
  assumes "0 < maxAttempts (assert self)" "check (assert self) a (app w) = ((True, r), g)"
  shows "asserts self a w = (Inr (), w\<lparr>app := g, trace := trace w @ [Checked a True]\<rparr>)"
proof -
  from assms(1) obtain n where n: "maxAttempts (assert self) = Suc n"
    by (cases "maxAttempts (assert self)") simp_all
  show ?thesis using assms(2) by (simp add: asserts_def attempt_def assertWithRetries_def n)
qed

lemma Confirm_on_stopwatch:
  "Confirm (stopwatch_input delay) stopwatch_world =
     \<lparr>app = (if 0 < nanoseconds delay then nanoseconds delay else 0),
      trace = [Slept (nanoseconds delay), PressedKey ''<enter>'']\<rparr>"
  by (simp add: Confirm_def press_def Wait_def Sleep_def Let_def stopwatch_input_def NewInput_def
      stopwatch_def stopwatch_world_def example_keys_def)

lemma nanoseconds_wraps: "nanoseconds 9223372036855 = - 9223372036854551616"
  by (simp add: nanoseconds_def int64_def Millisecond_def)

theorem settle_delay_before_every_press_witness:
  "paced 50000000 (commits_world 0) (snd (SwitchToCommitsWindow example_input (commits_world 0)))
   \<and> since (commits_world 0) (snd (SwitchToCommitsWindow example_input (commits_world 0)))
       = [Slept 50000000, PressedKey ''4'', Checked (CurrentWindowName ''commits'') True]
   \<and> paced (9223372036854 * 1000000) stopwatch_world
         (Confirm (stopwatch_input 9223372036854) stopwatch_world)
   \<and> Confirm (stopwatch_input 9223372036854) stopwatch_world
       = \<lparr>app = 9223372036854000000,
          trace = [Slept 9223372036854000000, PressedKey ''<enter>'']\<rparr>"
proof -
  have d: "pushKeyDelay example_input = 50"
    by (simp add: example_input_def NewInput_def)
  have k: "index (JumpToBlock (Universal (keys example_input))) 3 = Inr ''4''"
    by (simp add: example_input_def NewInput_def example_keys_def index_def)
  have a: "0 < maxAttempts (assert example_input)"
    by (simp add: example_input_def NewInput_def list_view_assert_def)
  have c: "check (assert example_input) (CurrentWindowName ''commits'') g = ((True, []), g)" for g
    by (simp add: example_input_def NewInput_def list_view_assert_def)
  have 1: "since (commits_world 0) (snd (SwitchToCommitsWindow example_input (commits_world 0)))
       = [Slept 50000000, PressedKey ''4'', Checked (CurrentWindowName ''commits'') True]"
    by (simp add: SwitchToCommitsWindow_def k asserts_pass [OF a c] since_def trace_press d
        nanoseconds_50)
  have e: "pushKeyDelay (stopwatch_input 9223372036854) = 9223372036854"
    by (simp add: stopwatch_input_def NewInput_def)
  have 2: "Confirm (stopwatch_input 9223372036854) stopwatch_world
       = \<lparr>app = 9223372036854000000,
          trace = [Slept 9223372036854000000, PressedKey ''<enter>'']\<rparr>"
    by (simp add: Confirm_on_stopwatch nanoseconds_in_range)
  from settle_delay_before_every_press [of example_input "commits_world 0"] d
  have 3: "paced 50000000 (commits_world 0)
             (snd (SwitchToCommitsWindow example_input (commits_world 0)))" by simp
  from settle_delay_before_every_press [of "stopwatch_input 9223372036854" stopwatch_world] e
  have 4: "paced (9223372036854 * 1000000) stopwatch_world
             (Confirm (stopwatch_input 9223372036854) stopwatch_world)" by simp
  from 1 2 3 4 show ?thesis by simp
qed

text \<open>
  C6 as stated fails: with a settle delay of 9223372036855 milliseconds the duration
  wraps around to a negative count of nanoseconds, \<^verbatim>\<open>time.Sleep\<close> returns at once, and the
  key is pressed without the application having had any time: no wait of the configured
  delay comes before the press.
\<close>

theorem settle_delay_wraps_around:
  "pushKeyDelay (stopwatch_input 9223372036855) = 9223372036855
   \<and> Confirm (stopwatch_input 9223372036855) stopwatch_world
       = \<lparr>app = 0, trace = [Slept (- 9223372036854551616), PressedKey ''<enter>'']\<rparr>
   \<and> \<not> paced (9223372036855 * 1000000) stopwatch_world
         (Confirm (stopwatch_input 9223372036855) stopwatch_world)"
proof -
  have "\<not> delay_before_each_press 9223372036855000000
           [Slept (- 9223372036854551616), PressedKey ''<enter>'']"
    by (simp add: delay_before_each_press_def) (rule exI [where x = 1], simp)
  moreover have "Confirm (stopwatch_input 9223372036855) stopwatch_world
       = \<lparr>app = 0, trace = [Slept (- 9223372036854551616), PressedKey ''<enter>'']\<rparr>"
    by (simp add: Confirm_on_stopwatch nanoseconds_wraps)
  moreover have "pushKeyDelay (stopwatch_input 9223372036855) = 9223372036855"
    by (simp add: stopwatch_input_def NewInput_def)
  moreover have "trace stopwatch_world = []" by (simp add: stopwatch_world_def)
  ultimately show ?thesis by (simp add: paced_def since_def)
qed

section \<open>Panel switching and the keybinding table\<close>

lemma retrying_no_panic:
  "fst (retrying self chk n msg w) \<noteq> Inl (IndexOutOfRange i k)"
  by (induction n arbitrary: msg w) (auto split: prod.splits)

lemma asserts_no_panic: "fst (asserts self a w) \<noteq> Inl (IndexOutOfRange i k)"
  by (simp add: asserts_def assertWithRetries_def retrying_no_panic split: prod.splits)

text \<open>
  C8 as stated fails: with four entries in the jump-to-block family,
  \<open>SwitchToStashWindow\<close> reads the entry at index 4 and panics, so four entries are not
  enough for the five operations.
\<close>

theorem SwitchToStashWindow_four_entries:
  "4 \<le> length (JumpToBlock (Universal (keys four_block_input)))
   \<and> SwitchToStashWindow four_block_input (commits_world 0)
       = (Inl (IndexOutOfRange 4 4), commits_world 0)"
  by (simp add: SwitchToStashWindow_def index_def four_block_input_def NewInput_def
      four_block_keys_def)

text \<open>
  C8, amended: for every keybinding table whose jump-to-block family has at least five
  entries, none of the five panel-switch operations stops with an index out of range.
\<close>

theorem panel_switches_index_in_bounds:
  assumes "5 \<le> length (JumpToBlock (Universal (keys self)))"
  shows "fst (SwitchToStatusWindow self w) \<noteq> Inl (IndexOutOfRange i n)
       \<and> fst (SwitchToFilesWindow self w) \<noteq> Inl (IndexOutOfRange i n)
       \<and> fst (SwitchToBranchesWindow self w) \<noteq> Inl (IndexOutOfRange i n)
       \<and> fst (SwitchToCommitsWindow self w) \<noteq> Inl (IndexOutOfRange i n)
       \<and> fst (SwitchToStashWindow self w) \<noteq> Inl (IndexOutOfRange i n)"
  using assms
  by (auto simp add: SwitchToStatusWindow_def SwitchToFilesWindow_def SwitchToBranchesWindow_def
      SwitchToCommitsWindow_def SwitchToStashWindow_def index_def asserts_no_panic)

theorem panel_switches_index_in_bounds_witness:
  "5 \<le> length (JumpToBlock (Universal (keys example_input)))
   \<and> fst (SwitchToStatusWindow example_input (commits_world 0)) \<noteq> Inl (IndexOutOfRange 0 5)
   \<and> fst (SwitchToFilesWindow example_input (commits_world 0)) \<noteq> Inl (IndexOutOfRange 1 5)
   \<and> fst (SwitchToBranchesWindow example_input (commits_world 0)) \<noteq> Inl (IndexOutOfRange 2 5)
   \<and> fst (SwitchToCommitsWindow example_input (commits_world 0)) \<noteq> Inl (IndexOutOfRange 3 5)
   \<and> fst (SwitchToStashWindow example_input (commits_world 0)) \<noteq> Inl (IndexOutOfRange 4 5)"
proof -
  have five: "5 \<le> length (JumpToBlock (Universal (keys example_input)))"
    by (simp add: example_input_def NewInput_def example_keys_def)
  show ?thesis
    using five panel_switches_index_in_bounds [OF five, of "commits_world 0" 0 5]
      panel_switches_index_in_bounds [OF five, of "commits_world 0" 1 5]
      panel_switches_index_in_bounds [OF five, of "commits_world 0" 2 5]
      panel_switches_index_in_bounds [OF five, of "commits_world 0" 3 5]
      panel_switches_index_in_bounds [OF five, of "commits_world 0" 4 5]
    by simp
qed

section \<open>Assertions before key presses in the modal flows\<close>

lemma trace_attempt:
  "trace (snd (attempt self a w)) = trace w @ [Checked a (fst (fst (fst (attempt self a w))))]"
  by (simp add: attempt_def split: prod.splits)

lemma retrying_attempt_events:
  "\<exists>pre. (\<forall>e\<in>set pre. e = Checked a False \<or> e = Slept (nanoseconds (retryDelay (assert self))))
         \<and> trace (snd (retrying self (attempt self a) n msg w))
             = trace w @ pre @ (case fst (retrying self (attempt self a) n msg w) of
                                  Inr _ \<Rightarrow> [Checked a True] | Inl _ \<Rightarrow> [])"
proof (induction n arbitrary: msg w)
  case 0
  show ?case by (rule exI [where x = "[]"]) simp
next
  case (Suc n)
  obtain ok reason w1 where c: "attempt self a w = (((ok, reason), ()), w1)"
    by (metis surj_pair old.unit.exhaust)
  with trace_attempt [of self a w] have t1: "trace w1 = trace w @ [Checked a ok]" by simp
  show ?case
  proof (cases ok)
    case True
    with c t1 show ?thesis by (intro exI [where x = "[]"]) simp
  next
    case False
    define w2 where "w2 = Wait self (retryDelay (assert self)) w1"
    from Suc.IH [of reason w2] obtain pre where
      pre: "\<forall>e\<in>set pre. e = Checked a False \<or> e = Slept (nanoseconds (retryDelay (assert self)))"
      and tr: "trace (snd (retrying self (attempt self a) n reason w2))
               = trace w2 @ pre @ (case fst (retrying self (attempt self a) n reason w2) of
                                    Inr _ \<Rightarrow> [Checked a True] | Inl _ \<Rightarrow> [])"
      by blast
    have r: "retrying self (attempt self a) (Suc n) msg w
               = retrying self (attempt self a) n reason w2"
      using c False by (simp add: w2_def)
    have t2: "trace w2 = trace w @ [Checked a False, Slept (nanoseconds (retryDelay (assert self)))]"
      using False t1 by (simp add: w2_def trace_Wait)
    show ?thesis
      by (rule exI [where x = "[Checked a False, Slept (nanoseconds (retryDelay (assert self)))] @ pre"])
        (simp only: r, simp add: tr t2 pre)
  qed
qed

lemma asserts_events:
  "\<exists>pre. (\<forall>e\<in>set pre. e = Checked a False \<or> e = Slept (nanoseconds (retryDelay (assert self))))
         \<and> trace (snd (asserts self a w))
             = trace w @ pre @ (case fst (asserts self a w) of
                                  Inr _ \<Rightarrow> [Checked a True] | Inl _ \<Rightarrow> [])"
proof (cases "immediate (assert self) a")
  case False
  then show ?thesis
    unfolding asserts_def assertWithRetries_def by (simp add: retrying_attempt_events)
next
  case True
  obtain ok reason w1 where c: "attempt self a w = (((ok, reason), ()), w1)"
    by (metis surj_pair old.unit.exhaust)
  with trace_attempt [of self a w] have t1: "trace w1 = trace w @ [Checked a ok]" by simp
  show ?thesis
  proof (cases ok)
    case True
    with c t1 \<open>immediate (assert self) a\<close> show ?thesis
      by (intro exI [where x = "[]"]) (simp add: asserts_def)
  next
    case False
    with c t1 \<open>immediate (assert self) a\<close> show ?thesis
      by (intro exI [where x = "[Checked a False]"]) (simp add: asserts_def)
  qed
qed

lemma asserted_first_skip:
  "\<forall>e\<in>set pre. \<not> is_press e \<and> e \<noteq> Checked a True \<Longrightarrow>
     asserted_first (a # as) (pre @ es) = asserted_first (a # as) es"
  by (induction pre) simp_all

lemma asserted_first_no_press: "\<forall>e\<in>set es. \<not> is_press e \<Longrightarrow> asserted_first as es"
  by (induction as es rule: asserted_first.induct) simp_all

lemma asserted_first_andThen:
  assumes ext: "\<And>w1. trace (snd (f () w1)) = trace w1 @ since w1 (snd (f () w1))"
    and rest: "\<And>w1. asserted_first as (since w1 (snd (f () w1)))"
  shows "asserted_first (a # as) (since w (snd (andThen (asserts self a w) f)))"
proof -
  obtain pre where
    pre: "\<forall>e\<in>set pre. e = Checked a False \<or> e = Slept (nanoseconds (retryDelay (assert self)))"
    and tr: "trace (snd (asserts self a w))
             = trace w @ pre @ (case fst (asserts self a w) of
                                  Inr _ \<Rightarrow> [Checked a True] | Inl _ \<Rightarrow> [])"
    using asserts_events by blast
  from pre have quiet: "\<forall>e\<in>set pre. \<not> is_press e \<and> e \<noteq> Checked a True" by auto
  obtain x w1 where r: "asserts self a w = (x, w1)" by (cases "asserts self a w")
  show ?thesis
  proof (cases x)
    case (Inl e)
    with r tr have "since w (snd (andThen (asserts self a w) f)) = pre"
      by (simp add: andThen_def since_def)
    with quiet show ?thesis by (simp add: asserted_first_no_press)
  next
    case (Inr u)
    define es where "es = since w1 (snd (f () w1))"
    from ext [of w1] have e: "trace (snd (f () w1)) = trace w1 @ es" by (simp add: es_def)
    from Inr r tr have "trace w1 = trace w @ pre @ [Checked a True]" by simp
    with Inr r e have "since w (snd (andThen (asserts self a w) f)) = pre @ Checked a True # es"
      by (simp add: andThen_def since_def)
    with quiet rest [of w1] show ?thesis by (simp add: asserted_first_skip es_def)
  qed
qed


lemma ext_of_paced: "paced d w w' \<Longrightarrow> trace w' = trace w @ since w w'"
  by (simp add: paced_def)

text \<open>
  C7: in \<open>AcceptConfirmation\<close>, \<open>DenyConfirmation\<close>, \<open>Prompt\<close> and \<open>Menu\<close> no key is
  pressed before the assertions of the expected modal kind and of the expected title
  (and content, for the confirmations) have passed, in that order; when one of them
  fails, the flow ends without a key press.
\<close>

theorem modal_flows_assert_before_pressing:
  "asserted_first [InConfirm, CurrentViewTitle title, CurrentViewContent content]
     (since w (snd (AcceptConfirmation self title content w)))
   \<and> asserted_first [InConfirm, CurrentViewTitle title, CurrentViewContent content]
     (since w (snd (DenyConfirmation self title content w)))
   \<and> asserted_first [InPrompt, CurrentViewTitle title]
     (since w (snd (Prompt self title textToType w)))
   \<and> asserted_first [InMenu, CurrentViewTitle title]
     (since w (snd (Menu self title optionToSelect w)))
   \<and> trace (snd (AcceptConfirmation self title content w))
       = trace w @ since w (snd (AcceptConfirmation self title content w))
   \<and> trace (snd (DenyConfirmation self title content w))
       = trace w @ since w (snd (DenyConfirmation self title content w))
   \<and> trace (snd (Prompt self title textToType w))
       = trace w @ since w (snd (Prompt self title textToType w))
   \<and> trace (snd (Menu self title optionToSelect w))
       = trace w @ since w (snd (Menu self title optionToSelect w))"
proof (intro conjI)
  note ext = ext_of_paced [where d = "nanoseconds (pushKeyDelay self)"]
  show "asserted_first [InConfirm, CurrentViewTitle title, CurrentViewContent content]
     (since w (snd (AcceptConfirmation self title content w)))"
    unfolding AcceptConfirmation_def
    by (intro asserted_first_andThen ext paced_andThen paced_asserts)
      (simp_all add: paced_Confirm)
  show "asserted_first [InConfirm, CurrentViewTitle title, CurrentViewContent content]
     (since w (snd (DenyConfirmation self title content w)))"
    unfolding DenyConfirmation_def
    by (intro asserted_first_andThen ext paced_andThen paced_asserts)
      (simp_all add: paced_Cancel)
  show "asserted_first [InPrompt, CurrentViewTitle title]
     (since w (snd (Prompt self title textToType w)))"
    unfolding Prompt_def
    by (intro asserted_first_andThen ext paced_andThen paced_asserts)
      (simp_all add: paced_trans [OF paced_Type paced_Confirm])
  show "asserted_first [InMenu, CurrentViewTitle title]
     (since w (snd (Menu self title optionToSelect w)))"
    unfolding Menu_def
    by (intro asserted_first_andThen ext paced_andThen paced_asserts paced_NavigateToListItem)
      (simp_all add: paced_Confirm)
  show "trace (snd (AcceptConfirmation self title content w))
       = trace w @ since w (snd (AcceptConfirmation self title content w))"
    by (rule ext [OF paced_AcceptConfirmation])
  show "trace (snd (DenyConfirmation self title content w))
       = trace w @ since w (snd (DenyConfirmation self title content w))"
    by (rule ext [OF paced_DenyConfirmation])
  show "trace (snd (Prompt self title textToType w))
       = trace w @ since w (snd (Prompt self title textToType w))"
    by (rule ext [OF paced_Prompt])
  show "trace (snd (Menu self title optionToSelect w))
       = trace w @ since w (snd (Menu self title optionToSelect w))"
    by (rule ext [OF paced_Menu])
qed

theorem modal_flows_assert_before_pressing_witness:
  "asserted_first [InConfirm, CurrentViewTitle (Contains ''Discard''), CurrentViewContent (Contains ''sure'')]
     (since (commits_world 0)
        (snd (AcceptConfirmation example_input (Contains ''Discard'') (Contains ''sure'') (commits_world 0))))
   \<and> since (commits_world 0)
        (snd (AcceptConfirmation example_input (Contains ''Discard'') (Contains ''sure'') (commits_world 0)))
      = [Checked InConfirm True, Checked (CurrentViewTitle (Contains ''Discard'')) True,
         Checked (CurrentViewContent (Contains ''sure'')) True, Slept 50000000, PressedKey ''<enter>'']"
proof -
  have a: "0 < maxAttempts (assert example_input)"
    by (simp add: example_input_def NewInput_def list_view_assert_def)
  have c: "check (assert example_input) InConfirm g = ((True, []), g)"
    "check (assert example_input) (CurrentViewTitle t) g = ((True, []), g)"
    "check (assert example_input) (CurrentViewContent t) g = ((True, []), g)" for g t
    by (simp_all add: example_input_def NewInput_def list_view_assert_def)
  have k: "pushKeyDelay example_input = 50"
    "KeybindingUniversalConfig.Confirm (Universal (keys example_input)) = ''<enter>''"
    by (simp_all add: example_input_def NewInput_def example_keys_def)
  have "since (commits_world 0)
        (snd (AcceptConfirmation example_input (Contains ''Discard'') (Contains ''sure'') (commits_world 0)))
      = [Checked InConfirm True, Checked (CurrentViewTitle (Contains ''Discard'')) True,
         Checked (CurrentViewContent (Contains ''sure'')) True, Slept 50000000, PressedKey ''<enter>'']"
    by (simp add: AcceptConfirmation_def andThen_def asserts_pass [OF a c(1)]
        asserts_pass [OF a c(2)] asserts_pass [OF a c(3)] Confirm_def trace_press since_def k
        nanoseconds_50)
  with modal_flows_assert_before_pressing [where title = "Contains ''Discard''"
      and content = "Contains ''sure''" and w = "commits_world 0" and self = example_input]
  show ?thesis by simp
qed

section \<open>The traces of the pressing cycles and the verdict on one match\<close>

lemma key_presses_append: "key_presses (xs @ ys) = key_presses xs @ key_presses ys"
  by (induction xs rule: key_presses.induct) simp_all

lemma key_presses_replicate:
  "key_presses (concat (replicate n [Slept d, PressedKey k])) = replicate n k"
  by (induction n) simp_all

lemma trace_next_items:
  "trace (next_items self i mi w) =
     trace w @ concat (replicate (nat (mi - i))
       [Slept (nanoseconds (pushKeyDelay self)), PressedKey (KeybindingUniversalConfig.NextItem (Universal (keys self)))])"
proof (induction self i mi w rule: next_items.induct)
  case (1 self i matchIndex w)
  show ?case
  proof (cases "i < matchIndex")
    case True
    then have n: "nat (matchIndex - i) = Suc (nat (matchIndex - (i + 1)))" by simp
    from 1 [OF True] True show ?thesis
      by (subst next_items.simps) (simp add: n NextItem_def trace_press)
  next
    case False then show ?thesis by (subst next_items.simps) simp
  qed
qed

lemma trace_previous_items:
  "trace (previous_items self i mi w) =
     trace w @ concat (replicate (nat (i - mi))
       [Slept (nanoseconds (pushKeyDelay self)), PressedKey (PrevItem (Universal (keys self)))])"
proof (induction self i mi w rule: previous_items.induct)
  case (1 self i matchIndex w)
  show ?case
  proof (cases "i > matchIndex")
    case True
    then have n: "nat (i - matchIndex) = Suc (nat (i - 1 - matchIndex))" by simp
    from 1 [OF True] True show ?thesis
      by (subst previous_items.simps) (simp add: n PreviousItem_def trace_press)
  next
    case False then show ?thesis by (subst previous_items.simps) simp
  qed
qed

lemma scan_lines_append:
  "scan_lines m (xs @ ys) i acc = scan_lines m ys (i + int (length xs)) (scan_lines m xs i acc)"
proof (induction xs arbitrary: i acc)
  case Nil show ?case by simp
next
  case (Cons x xs)
  obtain ms mi where acc: "acc = (ms, mi)" by (cases acc)
  show ?case by (simp add: acc Cons.IH add.assoc)
qed

lemma scan_lines_none:
  "\<forall>x\<in>set xs. \<not> fst (test m x) \<Longrightarrow> scan_lines m xs i acc = acc"
proof (induction xs arbitrary: i)
  case Nil show ?case by simp
next
  case (Cons x xs)
  obtain ms mi where acc: "acc = (ms, mi)" by (cases acc)
  from Cons show ?case by (simp add: acc)
qed

lemma matches_only_atD:
  assumes "matches_only_at m ls i"
  shows "i < length ls" and "fst (test m (ls ! i))"
    and "\<And>j. j < length ls \<Longrightarrow> j \<noteq> i \<Longrightarrow> \<not> fst (test m (ls ! j))"
proof -
  let ?P = "\<lambda>j. fst (test m (ls ! j))"
  from assms have eq: "filter ?P [0..<length ls] = [i]" by (simp add: matches_only_at_def)
  then have "set (filter ?P [0..<length ls]) = {i}" by simp
  then have s: "{j. j < length ls \<and> ?P j} = {i}" by auto
  then have "i \<in> {j. j < length ls \<and> ?P j}" by simp
  then show "i < length ls" and "fst (test m (ls ! i))" by simp_all
  fix j assume "j < length ls" "j \<noteq> i"
  with s show "\<not> fst (test m (ls ! j))" by blast
qed

lemma verdict_one:
  assumes "matches_only_at m ls i"
  shows "list_item_verdict m ls = ((True, []), int i)"
proof -
  note one = matches_only_atD [OF assms]
  have ls: "ls = take i ls @ [ls ! i] @ drop (Suc i) ls"
    using one(1) by (simp add: id_take_nth_drop)
  have before: "\<forall>x\<in>set (take i ls). \<not> fst (test m x)"
    using one(1) one(3) by (auto simp: in_set_conv_nth)
  have after: "\<forall>x\<in>set (drop (Suc i) ls). \<not> fst (test m x)"
  proof
    fix x assume "x \<in> set (drop (Suc i) ls)"
    then obtain j where "j < length ls - Suc i" "x = ls ! (Suc i + j)"
      by (auto simp: in_set_conv_nth)
    with one(3) [of "Suc i + j"] show "\<not> fst (test m x)" by simp
  qed
  have "scan_lines m ls 0 ([], - 1)
          = scan_lines m (take i ls @ [ls ! i] @ drop (Suc i) ls) 0 ([], - 1)"
    using ls by simp
  also have "\<dots> = ([ls ! i], int i)"
    using one(1) one(2)
    by (simp only: scan_lines_append scan_lines_none [OF before] scan_lines_none [OF after])
      simp
  finally show ?thesis by (simp add: list_item_verdict_def)
qed

section \<open>Navigation on an application that shows a list\<close>

lemma shows_list_view:
  assumes "shows_list self L S"
  obtains view where
    "\<And>g. CurrentContext (gui self) g = (IListContext view, g)"
    "\<And>g. ViewBufferLines (gui self) view g = (L g, g)"
    "\<And>g. SelectedLineIdx (gui self) view g = (S g, g)"
  using assms unfolding shows_list_def by blast

lemma shows_list_checks:
  assumes "shows_list self L S"
  shows "check (assert self) InListContext g = ((True, snd (fst (check (assert self) InListContext g))), g)"
    and "0 \<le> S g \<Longrightarrow> S g < int (length (L g)) \<Longrightarrow> fst (test m (L g ! nat (S g))) \<Longrightarrow>
           check (assert self) (SelectedLine m) g
             = ((True, snd (fst (check (assert self) (SelectedLine m) g))), g)"
proof -
  from assms have a: "fst (fst (check (assert self) InListContext g))"
    "snd (check (assert self) InListContext g) = g"
    unfolding shows_list_def by blast+
  then show "check (assert self) InListContext g
               = ((True, snd (fst (check (assert self) InListContext g))), g)"
    by (metis (full_types) prod.collapse)
  assume r: "0 \<le> S g" "S g < int (length (L g))" "fst (test m (L g ! nat (S g)))"
  from assms have "snd (check (assert self) (SelectedLine m) g) = g"
    "0 \<le> S g \<and> S g < int (length (L g)) \<longrightarrow>
       fst (fst (check (assert self) (SelectedLine m) g)) = fst (test m (L g ! nat (S g)))"
    unfolding shows_list_def by blast+
  with r have "fst (fst (check (assert self) (SelectedLine m) g))"
    "snd (check (assert self) (SelectedLine m) g) = g" by simp_all
  then show "check (assert self) (SelectedLine m) g
               = ((True, snd (fst (check (assert self) (SelectedLine m) g))), g)"
    by (metis (full_types) prod.collapse)
qed

lemma shows_list_NextItem:
  assumes "shows_list self L S"
  shows "L (app (NextItem self w)) = L (app w)"
    and "S (app w) + 1 < int (length (L (app w))) \<Longrightarrow> S (app (NextItem self w)) = S (app w) + 1"
proof -
  let ?g = "(if 0 < nanoseconds (pushKeyDelay self)
            then idle (gui self) (nanoseconds (pushKeyDelay self)) (app w) else app w)"
  let ?k = "KeybindingUniversalConfig.NextItem (Universal (keys self))"
  from assms have "\<And>d g. L (idle (gui self) d g) = L g \<and> S (idle (gui self) d g) = S g"
    unfolding shows_list_def by blast
  then have i: "L ?g = L (app w)" "S ?g = S (app w)" by simp_all
  from assms have p: "L (PressKey (gui self) ?k ?g) = L ?g"
    "S ?g + 1 < int (length (L ?g)) \<longrightarrow> S (PressKey (gui self) ?k ?g) = S ?g + 1"
    unfolding shows_list_def by blast+
  have a: "app (NextItem self w) = PressKey (gui self) ?k ?g"
    by (simp add: NextItem_def press_def Wait_def Sleep_def)
  from i p a show "L (app (NextItem self w)) = L (app w)" by simp
  assume "S (app w) + 1 < int (length (L (app w)))"
  with i p a show "S (app (NextItem self w)) = S (app w) + 1" by simp
qed

lemma shows_list_PreviousItem:
  assumes "shows_list self L S"
  shows "L (app (PreviousItem self w)) = L (app w)"
    and "0 < S (app w) \<Longrightarrow> S (app (PreviousItem self w)) = S (app w) - 1"
proof -
  let ?g = "(if 0 < nanoseconds (pushKeyDelay self)
            then idle (gui self) (nanoseconds (pushKeyDelay self)) (app w) else app w)"
  let ?k = "PrevItem (Universal (keys self))"
  from assms have "\<And>d g. L (idle (gui self) d g) = L g \<and> S (idle (gui self) d g) = S g"
    unfolding shows_list_def by blast
  then have i: "L ?g = L (app w)" "S ?g = S (app w)" by simp_all
  from assms have p: "L (PressKey (gui self) ?k ?g) = L ?g"
    "0 < S ?g \<longrightarrow> S (PressKey (gui self) ?k ?g) = S ?g - 1"
    unfolding shows_list_def by blast+
  have a: "app (PreviousItem self w) = PressKey (gui self) ?k ?g"
    by (simp add: PreviousItem_def press_def Wait_def Sleep_def)
  from i p a show "L (app (PreviousItem self w)) = L (app w)" by simp
  assume "0 < S (app w)"
  with i p a show "S (app (PreviousItem self w)) = S (app w) - 1" by simp
qed

lemma next_items_reaches:
  assumes "shows_list self L S"
  shows "S (app w) = i \<Longrightarrow> i \<le> mi \<Longrightarrow> mi < int (length (L (app w))) \<Longrightarrow>
           S (app (next_items self i mi w)) = mi \<and> L (app (next_items self i mi w)) = L (app w)"
  using assms
proof (induction self i mi w rule: next_items.induct)
  case (1 self i matchIndex w)
  show ?case
  proof (cases "i < matchIndex")
    case True
    note step = shows_list_NextItem [OF "1.prems"(4), of w]
    from True "1.prems" have "S (app w) + 1 < int (length (L (app w)))" by simp
    with step "1.prems" have "S (app (NextItem self w)) = i + 1"
      "L (app (NextItem self w)) = L (app w)" by simp_all
    with 1(1) [OF True] True "1.prems" show ?thesis
      by (subst (1 2) next_items.simps) simp
  next
    case False
    with "1.prems" show ?thesis by (subst (1 2) next_items.simps) simp
  qed
qed

lemma previous_items_reaches:
  assumes "shows_list self L S"
  shows "S (app w) = i \<Longrightarrow> mi \<le> i \<Longrightarrow> 0 \<le> mi \<Longrightarrow>
           S (app (previous_items self i mi w)) = mi
           \<and> L (app (previous_items self i mi w)) = L (app w)"
  using assms
proof (induction self i mi w rule: previous_items.induct)
  case (1 self i matchIndex w)
  show ?case
  proof (cases "i > matchIndex")
    case True
    note step = shows_list_PreviousItem [OF "1.prems"(4), of w]
    from True "1.prems" have "0 < S (app w)" by simp
    with step "1.prems" have "S (app (PreviousItem self w)) = i - 1"
      "L (app (PreviousItem self w)) = L (app w)" by simp_all
    with 1(1) [OF True] True "1.prems" show ?thesis
      by (subst (1 2) previous_items.simps) simp
  next
    case False
    with "1.prems" show ?thesis by (subst (1 2) previous_items.simps) simp
  qed
qed

lemma asserts_pass_reading:
  assumes "0 < maxAttempts (assert self)" "check (assert self) a (app w) = ((True, r), app w)"
  obtains w' where "asserts self a w = (Inr (), w')" "app w' = app w"
    "trace w' = trace w @ [Checked a True]"
proof (rule that)
  show "asserts self a w = (Inr (), w\<lparr>app := app w, trace := trace w @ [Checked a True]\<rparr>)"
    by (rule asserts_pass [OF assms])
qed simp_all

lemma assertWithRetries_first:
  assumes "0 < maxAttempts (assert self)" "chk w = (((True, r), c), w')"
  shows "assertWithRetries self chk w = (Inr c, w')"
proof -
  from assms(1) obtain n where n: "maxAttempts (assert self) = Suc n"
    by (cases "maxAttempts (assert self)") simp_all
  show ?thesis using assms(2) by (simp add: assertWithRetries_def n)
qed

lemma move_selection_on_list:
  assumes sl: "shows_list self L S" and att: "0 < maxAttempts (assert self)"
    and si: "\<And>g. SelectedLineIdx (gui self) view g = (S g, g)"
    and i: "i < length (L (app w))" and t: "fst (test m (L (app w) ! i))"
  obtains w' where "move_selection self m view (int i) w = (Inr (), w')"
    "trace w' = trace w @ [GotSelectedLineIdx (S (app w))]
       @ concat (replicate (nat \<bar>int i - S (app w)\<bar>)
           [Slept (nanoseconds (pushKeyDelay self)),
            PressedKey (if S (app w) < int i
                        then KeybindingUniversalConfig.NextItem (Universal (keys self))
                        else PrevItem (Universal (keys self)))])
       @ [Checked (SelectedLine m) True]"
    "S (app w') = int i" "L (app w') = L (app w)" "S (app w) = int i \<Longrightarrow> app w' = app w"
proof -
  define w1 where "w1 = w\<lparr>app := app w, trace := trace w @ [GotSelectedLineIdx (S (app w))]\<rparr>"
  have w1: "app w1 = app w" "trace w1 = trace w @ [GotSelectedLineIdx (S (app w))]"
    by (simp_all add: w1_def)
  define w2 where "w2 =
     (if S (app w) = int i then w1
      else if S (app w) < int i then next_items self (S (app w)) (int i) w1
      else previous_items self (S (app w)) (int i) w1)"
  have ms: "move_selection self m view (int i) w = asserts self (SelectedLine m) w2"
    by (simp add: move_selection_def si Let_def w1_def w2_def)
  have tr2: "trace w2 = trace w1 @ concat (replicate (nat \<bar>int i - S (app w)\<bar>)
           [Slept (nanoseconds (pushKeyDelay self)),
            PressedKey (if S (app w) < int i
                        then KeybindingUniversalConfig.NextItem (Universal (keys self))
                        else PrevItem (Universal (keys self)))])"
    by (simp add: w2_def trace_next_items trace_previous_items)
  have at: "S (app w2) = int i \<and> L (app w2) = L (app w)"
  proof (cases "S (app w) = int i")
    case True then show ?thesis by (simp add: w2_def w1)
  next
    case False
    show ?thesis
    proof (cases "S (app w) < int i")
      case True
      with next_items_reaches [OF sl, of w1 "S (app w)" "int i"] i w1 False
      show ?thesis by (simp add: w2_def)
    next
      case False
      with previous_items_reaches [OF sl, of w1 "S (app w)" "int i"] w1 \<open>S (app w) \<noteq> int i\<close>
      show ?thesis by (simp add: w2_def)
    qed
  qed
  have same: "S (app w) = int i \<Longrightarrow> app w2 = app w" by (simp add: w2_def w1)
  from at i t have "check (assert self) (SelectedLine m) (app w2)
      = ((True, snd (fst (check (assert self) (SelectedLine m) (app w2)))), app w2)"
    by (intro shows_list_checks(2) [OF sl]) simp_all
  from asserts_pass_reading [OF att this] obtain w' where
    w': "asserts self (SelectedLine m) w2 = (Inr (), w')" "app w' = app w2"
    "trace w' = trace w2 @ [Checked (SelectedLine m) True]" by blast
  show ?thesis
    by (rule that [of w']) (simp_all add: ms w' tr2 w1 at same)
qed

lemma NavigateToListItem_on_list:
  assumes sl: "shows_list self L S" and att: "0 < maxAttempts (assert self)"
    and one: "matches_only_at m (L (app w)) i"
  obtains w' where "NavigateToListItem self m w = (Inr (), w')"
    "key_presses (since w w') =
       replicate (nat \<bar>int i - S (app w)\<bar>)
         (if S (app w) < int i then KeybindingUniversalConfig.NextItem (Universal (keys self))
          else PrevItem (Universal (keys self)))"
    "S (app w') = int i" "L (app w') = L (app w)" "S (app w) = int i \<Longrightarrow> app w' = app w"
proof -
  from shows_list_view [OF sl] obtain view where
    cc: "\<And>g. CurrentContext (gui self) g = (IListContext view, g)" and
    vb: "\<And>g. ViewBufferLines (gui self) view g = (L g, g)" and
    si: "\<And>g. SelectedLineIdx (gui self) view g = (S g, g)" by blast
  from asserts_pass_reading [OF att shows_list_checks(1) [OF sl]] obtain w1 where
    w1: "asserts self InListContext w = (Inr (), w1)" "app w1 = app w"
    "trace w1 = trace w @ [Checked InListContext True]" by blast
  define w2 where "w2 = w1\<lparr>app := app w1, trace := trace w1 @ [GotCurrentContext (IListContext view)]\<rparr>"
  have w2: "app w2 = app w"
    "trace w2 = trace w @ [Checked InListContext True, GotCurrentContext (IListContext view)]"
    by (simp_all add: w2_def w1)
  define w3 where "w3 = w2\<lparr>app := app w2, trace := trace w2 @ [GotViewBufferLines (L (app w))]\<rparr>"
  have w3: "app w3 = app w"
    "trace w3 = trace w @ [Checked InListContext True, GotCurrentContext (IListContext view),
                           GotViewBufferLines (L (app w))]"
    by (simp_all add: w3_def w2)
  have "list_item_check self view m w2 = (((True, []), int i), w3)"
    by (simp add: list_item_check_def vb w2 w3_def verdict_one [OF one])
  then have poll: "assertWithRetries self (list_item_check self view m) w2 = (Inr (int i), w3)"
    by (rule assertWithRetries_first [OF att])
  note d = matches_only_atD [OF one]
  from d(1) d(2) have "i < length (L (app w3))" "fst (test m (L (app w3) ! i))"
    by (simp_all add: w3)
  from move_selection_on_list [OF sl att si this] obtain w' where
    w': "move_selection self m view (int i) w3 = (Inr (), w')"
    "trace w' = trace w3 @ [GotSelectedLineIdx (S (app w3))]
       @ concat (replicate (nat \<bar>int i - S (app w3)\<bar>)
           [Slept (nanoseconds (pushKeyDelay self)),
            PressedKey (if S (app w3) < int i
                        then KeybindingUniversalConfig.NextItem (Universal (keys self))
                        else PrevItem (Universal (keys self)))])
       @ [Checked (SelectedLine m) True]"
    "S (app w') = int i" "L (app w') = L (app w3)" "S (app w3) = int i \<Longrightarrow> app w' = app w3"
    by blast
  have nav: "NavigateToListItem self m w = (Inr (), w')"
    unfolding NavigateToListItem_def andThen_def
    by (simp only: w1(1) prod.case sum.case cc Let_def Context.case w2_def [symmetric] poll w'(1))
  have kp: "key_presses (since w w') =
       replicate (nat \<bar>int i - S (app w)\<bar>)
         (if S (app w) < int i then KeybindingUniversalConfig.NextItem (Universal (keys self))
          else PrevItem (Universal (keys self)))"
    by (simp add: since_def w' w3 key_presses_append key_presses_replicate)
  show ?thesis
    by (rule that [of w']) (simp_all add: nav kp w' w3)
qed

text \<open>
  C1: on an application that shows a list, when exactly one of the visible lines satisfies
  the matcher, at index \<open>i\<close>, and the selection is at \<open>S (app w)\<close>, then
  \<open>NavigateToListItem\<close> succeeds, the keys it presses are \<open>\<bar>i - S (app w)\<bar>\<close> presses of
  the next-item key when \<open>S (app w) < i\<close> and of the previous-item key when
  \<open>S (app w) > i\<close>, and the selection ends at \<open>i\<close>.
\<close>

theorem NavigateToListItem_moves_to_match:
  assumes "shows_list self L S" and "0 < maxAttempts (assert self)"
    and "matches_only_at m (L (app w)) i"
  shows "fst (NavigateToListItem self m w) = Inr ()
       \<and> key_presses (since w (snd (NavigateToListItem self m w))) =
           replicate (nat \<bar>int i - S (app w)\<bar>)
             (if S (app w) < int i then KeybindingUniversalConfig.NextItem (Universal (keys self))
              else PrevItem (Universal (keys self)))
       \<and> S (app (snd (NavigateToListItem self m w))) = int i"
proof -
  from NavigateToListItem_on_list [OF assms] obtain w' where
    "NavigateToListItem self m w = (Inr (), w')"
    "key_presses (since w w') =
       replicate (nat \<bar>int i - S (app w)\<bar>)
         (if S (app w) < int i then KeybindingUniversalConfig.NextItem (Universal (keys self))
          else PrevItem (Universal (keys self)))"
    "S (app w') = int i" by blast
  then show ?thesis by simp
qed

text \<open>
  C5: on an application that shows a list, when the selected index equals the index of the
  only matching line, \<open>NavigateToListItem\<close> succeeds, presses no key, and leaves the
  application as it was.
\<close>

theorem NavigateToListItem_on_match_presses_nothing:
  assumes "shows_list self L S" and "0 < maxAttempts (assert self)"
    and "matches_only_at m (L (app w)) i" and "S (app w) = int i"
  shows "fst (NavigateToListItem self m w) = Inr ()
       \<and> key_presses (since w (snd (NavigateToListItem self m w))) = []
       \<and> app (snd (NavigateToListItem self m w)) = app w"
proof -
  from NavigateToListItem_on_list [OF assms(1-3)] obtain w' where
    "NavigateToListItem self m w = (Inr (), w')"
    "key_presses (since w w') =
       replicate (nat \<bar>int i - S (app w)\<bar>)
         (if S (app w) < int i then KeybindingUniversalConfig.NextItem (Universal (keys self))
          else PrevItem (Universal (keys self)))"
    "S (app w) = int i \<Longrightarrow> app w' = app w" by blast
  with assms(4) show ?thesis by simp
qed

lemma example_shows_list: "shows_list example_input screen_lines screen_selected"
  unfolding shows_list_def
  by (simp add: example_input_def NewInput_def list_view_def list_view_assert_def
      example_keys_def press_on_screen_def selected_line_def)

lemma example_attempts: "0 < maxAttempts (assert example_input)"
  by (simp add: example_input_def NewInput_def list_view_assert_def)

lemma commit_02_at_3: "matches_only_at (Contains ''commit 02'') commits 3"
  by (simp add: matches_only_at_def commits_def Contains_def upt_rec)

theorem NavigateToListItem_moves_to_match_witness:
  "matches_only_at (Contains ''commit 02'') (screen_lines (app (commits_world 0))) 3
   \<and> fst (NavigateToListItem example_input (Contains ''commit 02'') (commits_world 0)) = Inr ()
   \<and> key_presses (since (commits_world 0)
         (snd (NavigateToListItem example_input (Contains ''commit 02'') (commits_world 0))))
       = [''<down>'', ''<down>'', ''<down>'']
   \<and> screen_selected
         (app (snd (NavigateToListItem example_input (Contains ''commit 02'') (commits_world 0)))) = 3
   \<and> key_presses (since (commits_world 4)
         (snd (NavigateToListItem example_input (Contains ''commit 02'') (commits_world 4))))
       = [''<up>'']"
proof -
  have one: "matches_only_at (Contains ''commit 02'') (screen_lines (app (commits_world s))) 3" for s
    using commit_02_at_3 by (simp add: commits_world_def)
  have k: "KeybindingUniversalConfig.NextItem (Universal (keys example_input)) = ''<down>''"
    "PrevItem (Universal (keys example_input)) = ''<up>''"
    by (simp_all add: example_input_def NewInput_def example_keys_def)
  have s: "screen_selected (app (commits_world s)) = s" for s
    by (simp add: commits_world_def)
  show ?thesis
    using one [of 0]
      NavigateToListItem_moves_to_match [OF example_shows_list example_attempts one [of 0]]
      NavigateToListItem_moves_to_match [OF example_shows_list example_attempts one [of 4]]
    by (simp add: k s numeral_3_eq_3)
qed

theorem NavigateToListItem_on_match_presses_nothing_witness:
  "matches_only_at (Contains ''commit 02'') (screen_lines (app (commits_world 3))) 3
   \<and> screen_selected (app (commits_world 3)) = 3
   \<and> fst (NavigateToListItem example_input (Contains ''commit 02'') (commits_world 3)) = Inr ()
   \<and> key_presses (since (commits_world 3)
         (snd (NavigateToListItem example_input (Contains ''commit 02'') (commits_world 3)))) = []
   \<and> app (snd (NavigateToListItem example_input (Contains ''commit 02'') (commits_world 3)))
       = app (commits_world 3)"
proof -
  have one: "matches_only_at (Contains ''commit 02'') (screen_lines (app (commits_world 3))) 3"
    using commit_02_at_3 by (simp add: commits_world_def)
  have s: "screen_selected (app (commits_world 3)) = int 3"
    by (simp add: commits_world_def)
  show ?thesis
    using one s
      NavigateToListItem_on_match_presses_nothing [OF example_shows_list example_attempts one s]
    by simp
qed

section \<open>Where the selected index is read\<close>

lemma key_presses_quiet: "\<forall>e\<in>set es. \<not> is_press e \<Longrightarrow> key_presses es = []"
  by (induction es rule: key_presses.induct) simp_all

lemma asserts_quiet:
  obtains es where "trace (snd (asserts self a w)) = trace w @ es" "key_presses es = []"
proof -
  from asserts_events [of a self w] obtain pre where
    pre: "\<forall>e\<in>set pre. e = Checked a False \<or> e = Slept (nanoseconds (retryDelay (assert self)))"
    and tr: "trace (snd (asserts self a w))
             = trace w @ pre @ (case fst (asserts self a w) of
                                  Inr _ \<Rightarrow> [Checked a True] | Inl _ \<Rightarrow> [])"
    by blast
  from pre have "\<forall>e\<in>set pre. \<not> is_press e" by auto
  then have "key_presses pre = []" by (rule key_presses_quiet)
  then have "key_presses (pre @ (case fst (asserts self a w) of
                                  Inr _ \<Rightarrow> [Checked a True] | Inl _ \<Rightarrow> [])) = []"
    by (simp add: key_presses_append split: sum.splits)
  with tr show ?thesis by (rule that)
qed

lemma retrying_quiet:
  assumes "\<And>w. \<exists>es. trace (snd (chk w)) = trace w @ es \<and> key_presses es = []"
  shows "\<exists>es. trace (snd (retrying self chk n msg w)) = trace w @ es \<and> key_presses es = []"
proof (induction n arbitrary: msg w)
  case 0 show ?case by simp
next
  case (Suc n)
  obtain ok reason c w1 where c: "chk w = (((ok, reason), c), w1)" by (metis surj_pair)
  from assms [of w] c obtain es1 where
    1: "trace w1 = trace w @ es1" "key_presses es1 = []" by auto
  show ?case
  proof (cases ok)
    case True with c 1 show ?thesis by simp
  next
    case False
    define w2 where "w2 = Wait self (retryDelay (assert self)) w1"
    from Suc.IH [of reason w2] obtain es2 where
      2: "trace (snd (retrying self chk n reason w2)) = trace w2 @ es2" "key_presses es2 = []"
      by blast
    have "trace (snd (retrying self chk (Suc n) msg w))
            = trace w @ (es1 @ [Slept (nanoseconds (retryDelay (assert self)))] @ es2)"
      using c False 1 2 by (simp add: w2_def [symmetric]) (simp add: w2_def trace_Wait)
    moreover have "key_presses (es1 @ [Slept (nanoseconds (retryDelay (assert self)))] @ es2) = []"
      using 1 2 by (simp add: key_presses_append)
    ultimately show ?thesis by blast
  qed
qed

lemma poll_quiet:
  fixes self :: "'g Input"
  obtains es where
    "trace (snd (assertWithRetries self (list_item_check self view m) w)) = trace w @ es"
    "key_presses es = []"
proof -
  have "\<exists>es. trace (snd (list_item_check self view m w)) = trace w @ es \<and> key_presses es = []"
    for w :: "'g world"
    by (cases "ViewBufferLines (gui self) view (app w)") (simp add: list_item_check_def)
  from retrying_quiet [where chk = "list_item_check self view m" and self = self
      and n = "maxAttempts (assert self)" and msg = "[]" and w = w, OF this]
  show ?thesis using that by (auto simp add: assertWithRetries_def)
qed

lemma move_selection_events:
  assumes "SelectedLineIdx (gui self) view (app w) = (s, g)"
  obtains es where
    "trace (snd (move_selection self m view mi w)) = trace w @ GotSelectedLineIdx s # es"
    "key_presses es = replicate (nat \<bar>mi - s\<bar>)
       (if s < mi then KeybindingUniversalConfig.NextItem (Universal (keys self))
        else PrevItem (Universal (keys self)))"
proof -
  define w1 where "w1 = w\<lparr>app := g, trace := trace w @ [GotSelectedLineIdx s]\<rparr>"
  define w2 where "w2 =
     (if s = mi then w1
      else if s < mi then next_items self s mi w1 else previous_items self s mi w1)"
  define ps where "ps = concat (replicate (nat \<bar>mi - s\<bar>)
           [Slept (nanoseconds (pushKeyDelay self)),
            PressedKey (if s < mi then KeybindingUniversalConfig.NextItem (Universal (keys self))
                        else PrevItem (Universal (keys self)))])"
  have ms: "move_selection self m view mi w = asserts self (SelectedLine m) w2"
    by (simp add: move_selection_def assms Let_def w1_def w2_def)
  have tr2: "trace w2 = trace w @ GotSelectedLineIdx s # ps"
    by (simp add: w2_def ps_def trace_next_items trace_previous_items w1_def)
  obtain es where es: "trace (snd (asserts self (SelectedLine m) w2)) = trace w2 @ es"
    "key_presses es = []" by (rule asserts_quiet)
  show ?thesis
  proof (rule that [of "ps @ es"])
    show "trace (snd (move_selection self m view mi w)) = trace w @ GotSelectedLineIdx s # ps @ es"
      by (simp add: ms es tr2)
    show "key_presses (ps @ es) = replicate (nat \<bar>mi - s\<bar>)
       (if s < mi then KeybindingUniversalConfig.NextItem (Universal (keys self))
        else PrevItem (Universal (keys self)))"
      by (simp add: key_presses_append es ps_def key_presses_replicate)
  qed
qed

text \<open>
  C2, amended: once the poll has returned the match index, \<open>NavigateToListItem\<close> asks the
  UI driver for the selected index in a query of its own, on the application as the poll
  left it, and the number and direction of the key presses come from the answer of that
  query and the match index of the poll. This holds for every UI driver.
\<close>

theorem selected_index_read_after_poll:
  assumes "asserts self InListContext w = (Inr (), w1)"
    and "CurrentContext (gui self) (app w1) = (IListContext view, g2)"
    and "assertWithRetries self (list_item_check self view m)
           (w1\<lparr>app := g2, trace := trace w1 @ [GotCurrentContext (IListContext view)]\<rparr>)
         = (Inr matchIndex, w3)"
    and "SelectedLineIdx (gui self) view (app w3) = (s, g4)"
  shows "take 1 (since w3 (snd (NavigateToListItem self m w))) = [GotSelectedLineIdx s]
       \<and> key_presses (since w (snd (NavigateToListItem self m w))) =
           replicate (nat \<bar>matchIndex - s\<bar>)
             (if s < matchIndex then KeybindingUniversalConfig.NextItem (Universal (keys self))
              else PrevItem (Universal (keys self)))"
proof -
  have nav: "NavigateToListItem self m w = move_selection self m view matchIndex w3"
    unfolding NavigateToListItem_def andThen_def
    by (simp only: assms(1) assms(2) assms(3) prod.case sum.case Let_def Context.case)
  obtain es1 where 1: "trace w1 = trace w @ es1" "key_presses es1 = []"
    using asserts_quiet [of self InListContext w] assms(1) by auto
  obtain es3 where 3: "trace w3 = trace w1 @ GotCurrentContext (IListContext view) # es3"
    "key_presses es3 = []"
    using poll_quiet [of self view m
        "w1\<lparr>app := g2, trace := trace w1 @ [GotCurrentContext (IListContext view)]\<rparr>"]
      assms(3) by auto
  from move_selection_events [OF assms(4), of m matchIndex] obtain es where
    es: "trace (snd (move_selection self m view matchIndex w3))
           = trace w3 @ GotSelectedLineIdx s # es"
    "key_presses es = replicate (nat \<bar>matchIndex - s\<bar>)
       (if s < matchIndex then KeybindingUniversalConfig.NextItem (Universal (keys self))
        else PrevItem (Universal (keys self)))" by blast
  have "take 1 (since w3 (snd (NavigateToListItem self m w))) = [GotSelectedLineIdx s]"
    by (simp add: nav es since_def)
  moreover have "since w (snd (NavigateToListItem self m w))
      = es1 @ GotCurrentContext (IListContext view) # es3 @ GotSelectedLineIdx s # es"
    by (simp add: nav es 1 3 since_def)
  ultimately show ?thesis by (simp add: key_presses_append 1 3 es)
qed

lemma redrawing_attempts: "0 < maxAttempts (assert redrawing_input)"
  by (simp add: redrawing_input_def NewInput_def redrawing_assert_def)

lemma redrawing_list_context:
  "asserts redrawing_input InListContext redrawing_world
     = (Inr (), redrawing_world\<lparr>app := app redrawing_world, trace := [Checked InListContext True]\<rparr>)"
proof -
  have "check (assert redrawing_input) InListContext (app redrawing_world)
          = ((True, []), app redrawing_world)"
    by (simp add: redrawing_input_def NewInput_def redrawing_assert_def)
  from asserts_pass [OF redrawing_attempts this] show ?thesis
    by (simp add: redrawing_world_def)
qed

lemma redrawing_context:
  "CurrentContext (gui redrawing_input) g = (IListContext ''commits'', g)"
  by (simp add: redrawing_input_def NewInput_def redrawing_view_def)

lemma redrawing_poll:
  "assertWithRetries redrawing_input
     (list_item_check redrawing_input ''commits'' (Contains ''commit 02''))
     (redrawing_world\<lparr>app := app redrawing_world,
        trace := [Checked InListContext True, GotCurrentContext (IListContext ''commits'')]\<rparr>)
   = (Inr 3, \<lparr>app = (\<lparr>screen_lines = commits, screen_selected = 4\<rparr>, None),
              trace = [Checked InListContext True, GotCurrentContext (IListContext ''commits''),
                       GotViewBufferLines commits]\<rparr>)"
proof (rule assertWithRetries_first [OF redrawing_attempts, where r = "[]"])
  show "list_item_check redrawing_input ''commits'' (Contains ''commit 02'')
     (redrawing_world\<lparr>app := app redrawing_world,
        trace := [Checked InListContext True, GotCurrentContext (IListContext ''commits'')]\<rparr>)
   = (((True, []), 3), \<lparr>app = (\<lparr>screen_lines = commits, screen_selected = 4\<rparr>, None),
              trace = [Checked InListContext True, GotCurrentContext (IListContext ''commits''),
                       GotViewBufferLines commits]\<rparr>)"
    using verdict_one [OF commit_02_at_3]
    by (simp add: list_item_check_def redrawing_input_def NewInput_def redrawing_view_def
        redrawing_world_def land_def)
qed

lemma redrawing_selected:
  "SelectedLineIdx (gui redrawing_input) ''commits''
     (\<lparr>screen_lines = commits, screen_selected = 4\<rparr>, None)
   = (4, (\<lparr>screen_lines = commits, screen_selected = 4\<rparr>, None))"
  by (simp add: redrawing_input_def NewInput_def redrawing_view_def)

lemma redrawing_poll_raw:
  "assertWithRetries redrawing_input
     (list_item_check redrawing_input ''commits'' (Contains ''commit 02''))
     ((redrawing_world\<lparr>app := app redrawing_world, trace := [Checked InListContext True]\<rparr>)
        \<lparr>app := app (redrawing_world\<lparr>app := app redrawing_world, trace := [Checked InListContext True]\<rparr>),
         trace := trace (redrawing_world\<lparr>app := app redrawing_world, trace := [Checked InListContext True]\<rparr>)
                    @ [GotCurrentContext (IListContext ''commits'')]\<rparr>)
   = (Inr 3, \<lparr>app = (\<lparr>screen_lines = commits, screen_selected = 4\<rparr>, None),
              trace = [Checked InListContext True, GotCurrentContext (IListContext ''commits''),
                       GotViewBufferLines commits]\<rparr>)"
  using redrawing_poll by simp

lemma redrawing_selected_raw:
  "SelectedLineIdx (gui redrawing_input) ''commits''
     (app \<lparr>app = (\<lparr>screen_lines = commits, screen_selected = 4\<rparr>, None),
              trace = [Checked InListContext True, GotCurrentContext (IListContext ''commits''),
                       GotViewBufferLines commits]\<rparr>)
   = (4, (\<lparr>screen_lines = commits, screen_selected = 4\<rparr>, None))"
  using redrawing_selected by simp

theorem selected_index_read_after_poll_witness:
  "take 1 (since \<lparr>app = (\<lparr>screen_lines = commits, screen_selected = 4\<rparr>, None),
                  trace = [Checked InListContext True, GotCurrentContext (IListContext ''commits''),
                           GotViewBufferLines commits]\<rparr>
            (snd (NavigateToListItem redrawing_input (Contains ''commit 02'') redrawing_world)))
     = [GotSelectedLineIdx 4]
   \<and> key_presses (since redrawing_world
         (snd (NavigateToListItem redrawing_input (Contains ''commit 02'') redrawing_world)))
       = [''<up>'']"
proof -
  have k: "PrevItem (Universal (keys redrawing_input)) = ''<up>''"
    by (simp add: redrawing_input_def NewInput_def example_keys_def)
  show ?thesis
    using selected_index_read_after_poll [OF redrawing_list_context redrawing_context redrawing_poll_raw
        redrawing_selected_raw]
    by (simp add: k)
qed

text \<open>
  C2 as stated fails: the selected index does not come from the render that the lines
  were read from. The application is in the middle of a redraw: the lines are read from a
  render whose selection is at 0, the only match is at index 3, and by the time the
  selected index is read the selection is at 4. Three presses of the next-item key would
  follow from the render of the lines; the facade presses the previous-item key once.
\<close>

theorem selected_index_from_later_render:
  "fst (ViewBufferLines (gui redrawing_input) ''commits'' (app redrawing_world)) = commits
   \<and> fst (SelectedLineIdx (gui redrawing_input) ''commits'' (app redrawing_world)) = 0
   \<and> matches_only_at (Contains ''commit 02'') commits 3
   \<and> trace (snd (NavigateToListItem redrawing_input (Contains ''commit 02'') redrawing_world))
       = [Checked InListContext True, GotCurrentContext (IListContext ''commits''),
          GotViewBufferLines commits, GotSelectedLineIdx 4, Slept 50000000, PressedKey ''<up>'',
          Checked (SelectedLine (Contains ''commit 02'')) True]
   \<and> key_presses (trace (snd (NavigateToListItem redrawing_input (Contains ''commit 02'')
          redrawing_world))) \<noteq> replicate (nat \<bar>3 - 0\<bar>) ''<down>''"
proof -
  have q: "fst (ViewBufferLines (gui redrawing_input) ''commits'' (app redrawing_world)) = commits"
    "fst (SelectedLineIdx (gui redrawing_input) ''commits'' (app redrawing_world)) = 0"
    by (simp_all add: redrawing_input_def NewInput_def redrawing_view_def redrawing_world_def)
  have k: "PrevItem (Universal (keys redrawing_input)) = ''<up>''"
    "pushKeyDelay redrawing_input = 50"
    by (simp_all add: redrawing_input_def NewInput_def example_keys_def)
  have after: "app (previous_items redrawing_input 4 3
      \<lparr>app = (\<lparr>screen_lines = commits, screen_selected = 4\<rparr>, None),
       trace = [Checked InListContext True, GotCurrentContext (IListContext ''commits''),
                GotViewBufferLines commits, GotSelectedLineIdx 4]\<rparr>)
      = (\<lparr>screen_lines = commits, screen_selected = 3\<rparr>, None)"
    by (simp add: previous_items.simps PreviousItem_def press_def Wait_def Sleep_def redrawing_input_def
        NewInput_def redrawing_view_def press_on_screen_def example_keys_def commits_def)
  have c: "check (assert redrawing_input) (SelectedLine (Contains ''commit 02''))
             (\<lparr>screen_lines = commits, screen_selected = 3\<rparr>, None)
           = ((True, ''expected to contain commit 02''),
              (\<lparr>screen_lines = commits, screen_selected = 3\<rparr>, None))"
    by (simp add: redrawing_input_def NewInput_def redrawing_assert_def selected_line_def
        commits_def Contains_def)
  have nav: "NavigateToListItem redrawing_input (Contains ''commit 02'') redrawing_world
      = move_selection redrawing_input (Contains ''commit 02'') ''commits'' 3
          \<lparr>app = (\<lparr>screen_lines = commits, screen_selected = 4\<rparr>, None),
           trace = [Checked InListContext True, GotCurrentContext (IListContext ''commits''),
                    GotViewBufferLines commits]\<rparr>"
    unfolding NavigateToListItem_def andThen_def
    by (simp only: redrawing_list_context redrawing_context redrawing_poll_raw prod.case
        sum.case Let_def Context.case)
  have ms: "move_selection redrawing_input (Contains ''commit 02'') ''commits'' 3
          \<lparr>app = (\<lparr>screen_lines = commits, screen_selected = 4\<rparr>, None),
           trace = [Checked InListContext True, GotCurrentContext (IListContext ''commits''),
                    GotViewBufferLines commits]\<rparr>
      = asserts redrawing_input (SelectedLine (Contains ''commit 02''))
          (previous_items redrawing_input 4 3
             \<lparr>app = (\<lparr>screen_lines = commits, screen_selected = 4\<rparr>, None),
              trace = [Checked InListContext True, GotCurrentContext (IListContext ''commits''),
                       GotViewBufferLines commits, GotSelectedLineIdx 4]\<rparr>)"
    by (simp add: move_selection_def redrawing_selected)
  have fin: "asserts redrawing_input (SelectedLine (Contains ''commit 02'')) w
      = (Inr (), w\<lparr>app := (\<lparr>screen_lines = commits, screen_selected = 3\<rparr>, None),
                    trace := trace w @ [Checked (SelectedLine (Contains ''commit 02'')) True]\<rparr>)"
    if "app w = (\<lparr>screen_lines = commits, screen_selected = 3\<rparr>, None)" for w
    by (rule asserts_pass [OF redrawing_attempts]) (simp add: that c)
  have tr: "trace (snd (NavigateToListItem redrawing_input (Contains ''commit 02'') redrawing_world))
       = [Checked InListContext True, GotCurrentContext (IListContext ''commits''),
          GotViewBufferLines commits, GotSelectedLineIdx 4, Slept 50000000, PressedKey ''<up>'',
          Checked (SelectedLine (Contains ''commit 02'')) True]"
    by (simp add: nav ms fin [OF after] trace_previous_items k nanoseconds_50)
  show ?thesis using q commit_02_at_3 tr by (simp add: numeral_3_eq_3)
qed

end
